theory Spec2Isabelle
  imports Main "HOL-Library.Word"
begin

section \<open>JavaScript strings\<close>

text \<open>
  A JavaScript string is a sequence of UTF-16 code units.  The program inspects
  characters outside ASCII (smart quotes, the no-break space, the Unicode
  sub/superscript digits), so a string is modelled as a list of 16-bit words.
  \<open>js\<close> embeds an ASCII literal.
\<close>

type_synonym jschar = "16 word"
type_synonym jsstring = "jschar list"

definition js :: "string \<Rightarrow> jsstring" where
  "js s = map of_char s"

abbreviation LF :: jschar where "LF \<equiv> 0x0A"
abbreviation CR :: jschar where "CR \<equiv> 0x0D"

section \<open>The text normalizer \<open>textEscape\<close>\<close>

text \<open>\<^verbatim>\<open>str.replace(/\r\n?/g, '\n')\<close>: every CR LF pair and every lone CR becomes LF.\<close>

fun replace_crlf :: "jsstring \<Rightarrow> jsstring" where
  "replace_crlf [] = []"
| "replace_crlf [c] = [if c = CR then LF else c]"
| "replace_crlf (c # d # cs) =
     (if c = CR then LF # (if d = LF then replace_crlf cs else replace_crlf (d # cs))
      else c # replace_crlf (d # cs))"

text \<open>\<^verbatim>\<open>.replace(/\n\n+/g, '\n')\<close>: a run of two or more LF becomes one LF.\<close>

function compress_newlines :: "jsstring \<Rightarrow> jsstring" where
  "compress_newlines [] = []"
| "compress_newlines (c # cs) =
     (if c = LF then LF # compress_newlines (dropWhile (\<lambda>d. d = LF) cs)
      else c # compress_newlines cs)"
  by pat_completeness auto
termination
  by (relation "measure length") (auto simp: length_dropWhile_le less_Suc_eq_le)

text \<open>\<^verbatim>\<open>str.replace(/^\n+/, '')\<close> and \<^verbatim>\<open>.replace(/\n$/, '')\<close> (no \<^verbatim>\<open>m\<close> flag:
  \<^verbatim>\<open>$\<close> is the end of the input, so at most one LF is removed).\<close>

definition trim_leading_newlines :: "jsstring \<Rightarrow> jsstring" where
  "trim_leading_newlines str = dropWhile (\<lambda>c. c = LF) str"

definition trim_trailing_newline :: "jsstring \<Rightarrow> jsstring" where
  "trim_trailing_newline str = (if str \<noteq> [] \<and> last str = LF then butlast str else str)"

text \<open>\<^verbatim>\<open>str.replace(/[\u201C\u201D]/g, '"')\<close> then \<^verbatim>\<open>str.replace(/[\u2018\u2019]/g, "'")\<close>.\<close>

definition plain_double_quote :: "jschar \<Rightarrow> jschar" where
  "plain_double_quote c = (if c = 0x201C \<or> c = 0x201D then 0x22 else c)"

definition plain_single_quote :: "jschar \<Rightarrow> jschar" where
  "plain_single_quote c = (if c = 0x2018 \<or> c = 0x2019 then 0x27 else c)"

definition textEscape :: "jsstring \<Rightarrow> jsstring" where
  "textEscape str =
     (let str = compress_newlines (replace_crlf str);
          str = trim_trailing_newline (trim_leading_newlines str);
          str = map plain_double_quote str;
          str = map plain_single_quote str
      in str)"

text \<open>The string before the quote replacement: no CR, no LF run, no LF at either end.\<close>

definition strip_newlines :: "jsstring \<Rightarrow> jsstring" where
  "strip_newlines str =
     trim_trailing_newline (trim_leading_newlines (compress_newlines (replace_crlf str)))"

text \<open>The patterns that \<open>textEscape\<close> rewrites, as predicates on a string.\<close>

fun has_newline_run :: "jsstring \<Rightarrow> bool" where
  "has_newline_run [] = False"
| "has_newline_run [c] = False"
| "has_newline_run (c # d # cs) = ((c = LF \<and> d = LF) \<or> has_newline_run (d # cs))"

definition is_smart_quote :: "jschar \<Rightarrow> bool" where
  "is_smart_quote c = (c = 0x201C \<or> c = 0x201D \<or> c = 0x2018 \<or> c = 0x2019)"

definition normalized :: "jsstring \<Rightarrow> bool" where
  "normalized s =
     (CR \<notin> set s \<and> \<not> has_newline_run s \<and>
      (s \<noteq> [] \<longrightarrow> hd s \<noteq> LF \<and> last s \<noteq> LF) \<and>
      (\<forall>c \<in> set s. \<not> is_smart_quote c))"

section \<open>Errors\<close>

text \<open>
  A JavaScript exception that leaves the function is a value \<open>Inl e\<close>; a normal
  return is \<open>Inr\<close> of the updated state.  \<open>RangeError\<close> is what the engine raises
  when the call stack is exhausted by unbounded recursion.
\<close>

datatype error = TypeError | SyntaxError | RangeError

definition andThen :: "error + 'a \<Rightarrow> ('a \<Rightarrow> error + 'b) \<Rightarrow> error + 'b" where
  "andThen m f = (case m of Inl e \<Rightarrow> Inl e | Inr x \<Rightarrow> f x)"

section \<open>White space\<close>

text \<open>The class \<^verbatim>\<open>\s\<close> of ECMAScript regular expressions (WhiteSpace and
  LineTerminator), which is also what \<^verbatim>\<open>String.prototype.trim\<close> removes.\<close>

definition is_space :: "jschar \<Rightarrow> bool" where
  "is_space c =
     (c = 0x09 \<or> c = 0x0A \<or> c = 0x0B \<or> c = 0x0C \<or> c = 0x0D \<or> c = 0x20 \<or>
      c = 0xA0 \<or> c = 0x1680 \<or> (0x2000 \<le> c \<and> c \<le> 0x200A) \<or>
      c = 0x2028 \<or> c = 0x2029 \<or> c = 0x202F \<or> c = 0x205F \<or> c = 0x3000 \<or>
      c = 0xFEFF)"

abbreviation SP :: jschar where "SP \<equiv> 0x20"

text \<open>\<^verbatim>\<open>t.replace(/\s+/g, ' ')\<close>: every maximal run of white space becomes one space.\<close>

function collapse_space :: "jsstring \<Rightarrow> jsstring" where
  "collapse_space [] = []"
| "collapse_space (c # cs) =
     (if is_space c then SP # collapse_space (dropWhile is_space cs)
      else c # collapse_space cs)"
  by pat_completeness auto
termination
  by (relation "measure length") (auto simp: length_dropWhile_le less_Suc_eq_le)

text \<open>\<^verbatim>\<open>text.replace(/^\s+/, '')\<close> and \<^verbatim>\<open>t.trim()\<close>.\<close>

definition trim_left :: "jsstring \<Rightarrow> jsstring" where
  "trim_left t = dropWhile is_space t"

definition trim :: "jsstring \<Rightarrow> jsstring" where
  "trim t = rev (dropWhile is_space (rev (dropWhile is_space t)))"

text \<open>A string argument that may be absent (\<^verbatim>\<open>undefined\<close> or \<^verbatim>\<open>null\<close>) is a
  \<open>jsstring option\<close>; it is truthy when it is present and not empty.\<close>

definition truthy :: "jsstring option \<Rightarrow> bool" where
  "truthy t = (case t of None \<Rightarrow> False | Some s \<Rightarrow> s \<noteq> [])"

section \<open>The Formatter\<close>

text \<open>
  The options the Formatter reads.  \<^verbatim>\<open>options.column || 75\<close> and
  \<^verbatim>\<open>options.tabWidth || 2\<close> take the default for every falsy value, so an absent
  number is modelled as \<open>0\<close>.
\<close>

record foptions =
  column :: int
  optTabWidth :: int
  noWrap :: bool

text \<open>\<^verbatim>\<open>this.state\<close>: the indentation and the wrap function made for it.\<close>

record fstate =
  indent :: int
  wrap :: "jsstring \<Rightarrow> jsstring"

text \<open>
  The Formatter object.  \<open>outStream\<close> is the list of chunks handed to
  \<^verbatim>\<open>outStream.write\<close>, oldest first.  \<open>stateStack\<close> has its top at the head.
  \<open>state\<close> is \<open>None\<close> when \<^verbatim>\<open>this.state\<close> is \<^verbatim>\<open>undefined\<close>, which is what
  \<^verbatim>\<open>stateStack.pop()\<close> returns on an empty stack.
\<close>

record formatter =
  options :: foptions
  columns :: int
  tabWidth :: int
  buffer :: "jsstring list"
  outStream :: "jsstring list"
  newLine :: bool
  newPara :: bool
  stateStack :: "fstate list"
  state :: "fstate option"

text \<open>
  The \<^verbatim>\<open>linewrap\<close> package is not part of the repository: the wrapper it returns
  for a column width, an indentation and an optional \<^verbatim>\<open>wrapLineIndent\<close> is a
  parameter \<open>lw\<close> of the model (the other options passed are constant).
\<close>

type_synonym linewrap = "int \<Rightarrow> int \<Rightarrow> int option \<Rightarrow> jsstring \<Rightarrow> jsstring"

text \<open>\<^verbatim>\<open>mkspace(n)\<close>: a string of \<open>n\<close> spaces, built by halving
  (\<^verbatim>\<open>(n/2)|0\<close> is \<open>n div 2\<close> for the \<open>n > 1\<close> it is applied to).\<close>

function mkspace :: "int \<Rightarrow> jsstring" where
  "mkspace n =
     (if n \<le> 1 then (if n = 1 then [SP] else [])
      else (let m = n div 2 in mkspace m @ mkspace (n - m)))"
  by pat_completeness auto
termination
  by (relation "measure nat") auto

declare mkspace.simps [simp del]

definition makeWrap ::
  "linewrap \<Rightarrow> foptions \<Rightarrow> int \<Rightarrow> int \<Rightarrow> int \<Rightarrow> jsstring option \<Rightarrow> jsstring \<Rightarrow> jsstring" where
  "makeWrap lw opts cols tabw ind tag =
     (if noWrap opts then
        (let ind = (if truthy tag then ind - tabw else ind);
             spc = mkspace ind
         in (\<lambda>t. spc @ trim (collapse_space t)))
      else
        (let ind = (if ind + 20 \<ge> cols then cols - 20 else ind)
         in if truthy tag then lw cols (ind - tabw) (Some tabw)
            else lw cols ind None))"

definition Formatter :: "linewrap \<Rightarrow> foptions \<Rightarrow> formatter" where
  "Formatter lw opts =
     (let cols = (if column opts = 0 then 75 else column opts);
          tabw = (if optTabWidth opts = 0 then 2 else optTabWidth opts)
      in \<lparr> options = opts, columns = cols, tabWidth = tabw, buffer = [],
           outStream = [], newLine = True, newPara = True, stateStack = [],
           state = Some \<lparr> indent = 0, wrap = makeWrap lw opts cols tabw 0 None \<rparr> \<rparr>)"

definition Formatter_lineBreak :: "formatter \<Rightarrow> error + formatter" where
  "Formatter_lineBreak f =
     (if newLine f then Inr f
      else case state f of
        None \<Rightarrow> Inl TypeError
      | Some st \<Rightarrow>
          Inr (f\<lparr> outStream := outStream f @ [wrap st (concat (buffer f)), [LF]],
                  buffer := [], newLine := True \<rparr>))"

definition Formatter_paragraphBreak :: "formatter \<Rightarrow> error + formatter" where
  "Formatter_paragraphBreak f =
     (if newPara f then Inr f
      else andThen (if \<not> newLine f then Formatter_lineBreak f else Inr f)
             (\<lambda>f. Inr (f\<lparr> outStream := outStream f @ [[LF]], newPara := True \<rparr>)))"

definition Formatter_write :: "jsstring \<Rightarrow> formatter \<Rightarrow> formatter" where
  "Formatter_write text f =
     (if newLine f \<or> newPara f then
        (let text = trim_left text
         in if text = [] then f
            else f\<lparr> newLine := False, newPara := False, buffer := buffer f @ [text] \<rparr>)
      else f\<lparr> buffer := buffer f @ [text] \<rparr>)"

definition Formatter_indent ::
  "linewrap \<Rightarrow> jsstring option \<Rightarrow> formatter \<Rightarrow> error + formatter" where
  "Formatter_indent lw tag f =
     andThen (Formatter_lineBreak f) (\<lambda>f.
       case state f of
         None \<Rightarrow> Inl TypeError
       | Some st \<Rightarrow>
           (let nIndent = indent st + tabWidth f;
                f = f\<lparr> stateStack := st # stateStack f,
                       state := Some \<lparr> indent = nIndent,
                         wrap = makeWrap lw (options f) (columns f) (tabWidth f) nIndent tag \<rparr> \<rparr>
            in Inr (if truthy tag
                    then Formatter_write [SP] (Formatter_write (the tag) f)
                    else f)))"

definition Formatter_dedent :: "formatter \<Rightarrow> error + formatter" where
  "Formatter_dedent f =
     andThen (Formatter_lineBreak f) (\<lambda>f.
       Inr (case stateStack f of
              [] \<Rightarrow> f\<lparr> state := None \<rparr>
            | st # rest \<Rightarrow> f\<lparr> state := Some st, stateStack := rest \<rparr>))"

definition Formatter_writeHeading :: "jsstring \<Rightarrow> formatter \<Rightarrow> error + formatter" where
  "Formatter_writeHeading heading f =
     andThen (Formatter_paragraphBreak f) (\<lambda>f.
       Formatter_paragraphBreak (Formatter_write (trim heading) f))"

definition Formatter_writeTitle ::
  "jsstring \<Rightarrow> jsstring option \<Rightarrow> formatter \<Rightarrow> error + formatter" where
  "Formatter_writeTitle title subtitle f =
     andThen (Formatter_lineBreak (Formatter_write (trim title) f)) (\<lambda>f.
     andThen (if truthy subtitle
              then Formatter_lineBreak (Formatter_write (trim (the subtitle)) f)
              else Inr f)
       Formatter_paragraphBreak)"

definition Formatter_writeSummary ::
  "linewrap \<Rightarrow> jsstring \<Rightarrow> formatter \<Rightarrow> error + formatter" where
  "Formatter_writeSummary lw summary f =
     andThen (Formatter_paragraphBreak f) (\<lambda>f.
     andThen (Formatter_indent lw None f) (\<lambda>f.
     andThen (Formatter_dedent (Formatter_write (trim summary) f))
       Formatter_paragraphBreak))"

text \<open>\<^verbatim>\<open>flush\<close>: the line break; the empty write it then waits for adds no text.\<close>

definition Formatter_flush :: "formatter \<Rightarrow> error + formatter" where
  "Formatter_flush f = Formatter_lineBreak f"

section \<open>Sequences of Formatter operations\<close>

text \<open>\<open>N\<close> consecutive calls of \<^verbatim>\<open>paragraphBreak()\<close>; an exception ends the sequence.\<close>

fun repeat_paragraphBreak :: "nat \<Rightarrow> formatter \<Rightarrow> error + formatter" where
  "repeat_paragraphBreak 0 f = Inr f"
| "repeat_paragraphBreak (Suc n) f =
     andThen (Formatter_paragraphBreak f) (repeat_paragraphBreak n)"

text \<open>The public operations of a Formatter, as data, and a series of calls on one Formatter.\<close>

datatype fop =
    Write jsstring | LineBreak | ParagraphBreak | Indent "jsstring option" | Dedent
  | WriteHeading jsstring | WriteTitle jsstring "jsstring option" | WriteSummary jsstring
  | Flush

fun apply_fop :: "linewrap \<Rightarrow> fop \<Rightarrow> formatter \<Rightarrow> error + formatter" where
  "apply_fop lw (Write t) f = Inr (Formatter_write t f)"
| "apply_fop lw LineBreak f = Formatter_lineBreak f"
| "apply_fop lw ParagraphBreak f = Formatter_paragraphBreak f"
| "apply_fop lw (Indent tag) f = Formatter_indent lw tag f"
| "apply_fop lw Dedent f = Formatter_dedent f"
| "apply_fop lw (WriteHeading h) f = Formatter_writeHeading h f"
| "apply_fop lw (WriteTitle t s) f = Formatter_writeTitle t s f"
| "apply_fop lw (WriteSummary s) f = Formatter_writeSummary lw s f"
| "apply_fop lw Flush f = Formatter_flush f"

fun run_fops :: "linewrap \<Rightarrow> fop list \<Rightarrow> formatter \<Rightarrow> error + formatter" where
  "run_fops lw [] f = Inr f"
| "run_fops lw (x # xs) f = andThen (apply_fop lw x f) (run_fops lw xs)"

text \<open>The text written to the output stream so far.\<close>

definition emitted :: "formatter \<Rightarrow> jsstring" where
  "emitted f = concat (outStream f)"

text \<open>
  \<open>lf_run k s\<close>: reading \<open>s\<close> after \<open>k\<close> line feeds, three line feeds in a row are
  met; \<open>lf_count k s\<close> is the number of line feeds that end \<open>s\<close> read so.  Two
  consecutive blank lines in the output are three line feeds in a row, or two
  line feeds at its very start.
\<close>

fun lf_run :: "nat \<Rightarrow> jsstring \<Rightarrow> bool" where
  "lf_run k [] = False"
| "lf_run k (c # cs) = (if c = LF then k \<ge> 2 \<or> lf_run (Suc k) cs else lf_run 0 cs)"

fun lf_count :: "nat \<Rightarrow> jsstring \<Rightarrow> nat" where
  "lf_count k [] = k"
| "lf_count k (c # cs) = lf_count (if c = LF then Suc k else 0) cs"

definition consecutive_blank_lines :: "jsstring \<Rightarrow> bool" where
  "consecutive_blank_lines out = lf_run 1 out"

text \<open>
  What the invariant needs of a wrap function: a text that starts with a character
  that is not white space is laid out as lines, none of them empty.  The wrap
  function of the no-wrap mode has this property; for the \<^verbatim>\<open>linewrap\<close> package it is
  the assumption \<open>linewrap_ok\<close>.
\<close>

definition line_block :: "jsstring \<Rightarrow> bool" where
  "line_block s = (s \<noteq> [] \<and> hd s \<noteq> LF \<and> last s \<noteq> LF \<and> \<not> lf_run 0 s)"

definition wrap_ok :: "(jsstring \<Rightarrow> jsstring) \<Rightarrow> bool" where
  "wrap_ok w = (\<forall>t. t \<noteq> [] \<and> \<not> is_space (hd t) \<longrightarrow> line_block (w t))"

definition linewrap_ok :: "linewrap \<Rightarrow> bool" where
  "linewrap_ok lw = (\<forall>c i wli. wrap_ok (lw c i wli))"

text \<open>The invariant of the Formatter's flags, buffer and output.\<close>

definition formatter_inv :: "linewrap \<Rightarrow> formatter \<Rightarrow> bool" where
  "formatter_inv lw f =
     (\<not> lf_run 1 (emitted f) \<and>
      (newPara f \<longrightarrow> newLine f) \<and>
      (newLine f \<longrightarrow> buffer f = []) \<and>
      (\<not> newLine f \<longrightarrow> concat (buffer f) \<noteq> [] \<and> \<not> is_space (hd (concat (buffer f)))) \<and>
      (newLine f \<and> \<not> newPara f \<longrightarrow> lf_count 1 (emitted f) = 1) \<and>
      (\<forall>st \<in> set (stateStack f). wrap_ok (wrap st)) \<and>
      (\<forall>st. state f = Some st \<longrightarrow> wrap_ok (wrap st)) \<and>
      (noWrap (options f) \<or> linewrap_ok lw))"

text \<open>A Formatter in no-wrap mode, for concrete runs (it never calls \<open>linewrap\<close>).\<close>

definition plain_linewrap :: linewrap where
  "plain_linewrap cols ind wli t = t"

definition nowrap_options :: foptions where
  "nowrap_options = \<lparr> column = 0, optTabWidth = 0, noWrap = True \<rparr>"

definition demo_ops :: "fop list" where
  "demo_ops = [Write (js '' a''), ParagraphBreak, ParagraphBreak, LineBreak,
               Write (js ''b  c''), ParagraphBreak, LineBreak]"

section \<open>The macro interpreter \<open>cleanMath\<close>\<close>

abbreviation BSL :: jschar where "BSL \<equiv> 0x5C"

text \<open>
  The state outside the interpreter: the module-level object \<^verbatim>\<open>warned\<close>, used as a
  set of names (every value stored is \<^verbatim>\<open>true\<close>), and the messages given to
  \<^verbatim>\<open>console.warn\<close>, oldest first.
\<close>

datatype message =
    UnknownMathFunction jsstring
  | UnterminatedMathArgument jsstring jsstring
  | NonStandardDir "jsstring option" "jsstring option" "jsstring option"

record globals =
  warned :: "jsstring set"
  console :: "message list"

text \<open>The sub/superscript tables \<^verbatim>\<open>submap\<close> and \<^verbatim>\<open>supmap\<close>.\<close>

definition submap :: "(jschar \<times> jschar) list" where
  "submap =
    [(0x30, 0x2080), (0x31, 0x2081), (0x32, 0x2082), (0x33, 0x2083), (0x34, 0x2084),
     (0x35, 0x2085), (0x36, 0x2086), (0x37, 0x2087), (0x38, 0x2088), (0x39, 0x2089),
     (0x2B, 0x208A), (0x2D, 0x208B), (0x3D, 0x208C), (0x28, 0x208D), (0x29, 0x208E),
     (0x61, 0x2090), (0x65, 0x2091), (0x6F, 0x2092), (0x78, 0x2093), (0x68, 0x2095),
     (0x6B, 0x2096), (0x6C, 0x2097), (0x6D, 0x2098), (0x6E, 0x2099), (0x70, 0x209A),
     (0x73, 0x209B), (0x74, 0x209C), (0x20, 0x20), (0xA0, 0xA0)]"

definition supmap :: "(jschar \<times> jschar) list" where
  "supmap =
    [(0x32, 0xB2), (0x33, 0xB3), (0x31, 0xB9), (0x30, 0x2070), (0x69, 0x2071),
     (0x34, 0x2074), (0x35, 0x2075), (0x36, 0x2076), (0x37, 0x2077), (0x38, 0x2078),
     (0x39, 0x2079), (0x2B, 0x207A), (0x2D, 0x207B), (0x3D, 0x207C), (0x28, 0x207D),
     (0x29, 0x207E), (0x6E, 0x207F), (0x20, 0x20), (0xA0, 0xA0)]"


text \<open>
  \<^verbatim>\<open>s.replace(/[\s\S]/g, function(c) { return map[c]; })\<close>: a character that is not
  a key of the table is replaced by the text \<^verbatim>\<open>undefined\<close>.
\<close>

definition translit :: "(jschar \<times> jschar) list \<Rightarrow> jsstring \<Rightarrow> jsstring" where
  "translit m s =
     concat (map (\<lambda>c. case map_of m c of Some d \<Rightarrow> [d] | None \<Rightarrow> js ''undefined'') s)"

text \<open>
  \<^verbatim>\<open>subsupre\<close>: an underscore followed by a run of keys of \<^verbatim>\<open>submap\<close>, or a caret
  followed by a run of keys of \<^verbatim>\<open>supmap\<close>; in both classes the hyphen is removed
  from the keys.  \<^verbatim>\<open>subsup\<close> replaces each match by the transliterated run.
\<close>

definition subsup_class :: "(jschar \<times> jschar) list \<Rightarrow> jschar \<Rightarrow> bool" where
  "subsup_class m c = (map_of m c \<noteq> None \<and> c \<noteq> 0x2D)"

function subsup :: "jsstring \<Rightarrow> jsstring" where
  "subsup [] = []"
| "subsup (c # cs) =
     (let sub = takeWhile (subsup_class submap) cs;
          sup = takeWhile (subsup_class supmap) cs
      in if c = 0x5F \<and> sub \<noteq> [] then translit submap sub @ subsup (drop (length sub) cs)
         else if c = 0x5E \<and> sup \<noteq> [] then translit supmap sup @ subsup (drop (length sup) cs)
         else c # subsup cs)"
  by pat_completeness auto
termination
  by (relation "measure length") auto

text \<open>The handlers of \<^verbatim>\<open>funcMap\<close>: a fixed text, the first argument (\<^verbatim>\<open>s || ''\<close>), or
  the square root, whose missing argument prints as \<^verbatim>\<open>undefined\<close>.\<close>

datatype mathfn = Symbol jsstring | FirstArg | Sqrt

definition funcMap :: "(jsstring \<times> mathfn) list" where
  "funcMap =
    [(js ''cdot'', Symbol [0xB7]),
     (js ''cdots'', Symbol [0x22EF]),
     (js ''dots'', Symbol [0x2026]),
     (js ''ldots'', Symbol [0x2026]),
     ([], FirstArg),
     (js ''mathbf'', FirstArg),
     (js ''rm'', FirstArg),
     (js ''scriptstyle'', FirstArg),
     (js ''text'', FirstArg),
     (js ''alpha'', Symbol [0x3B1]),
     (js ''beta'', Symbol [0x3B2]),
     (js ''gamma'', Symbol [0x3B3]),
     (js ''delta'', Symbol [0x3B4]),
     (js ''epsilon'', Symbol [0x3F5]),
     (js ''varepsilon'', Symbol [0x3B5]),
     (js ''zeta'', Symbol [0x3B6]),
     (js ''eta'', Symbol [0x3B7]),
     (js ''theta'', Symbol [0x3B8]),
     (js ''vartheta'', Symbol [0x3D1]),
     (js ''iota'', Symbol [0x3B9]),
     (js ''kappa'', Symbol [0x3BA]),
     (js ''lambda'', Symbol [0x3BB]),
     (js ''mu'', Symbol [0x3BC]),
     (js ''nu'', Symbol [0x3BD]),
     (js ''xi'', Symbol [0x3BE]),
     (js ''pi'', Symbol [0x3C0]),
     (js ''varpi'', Symbol [0x3D6]),
     (js ''rho'', Symbol [0x3C1]),
     (js ''varrho'', Symbol [0x3F1]),
     (js ''sigma'', Symbol [0x3C3]),
     (js ''varsigma'', Symbol [0x3C2]),
     (js ''tau'', Symbol [0x3C4]),
     (js ''upsilon'', Symbol [0x3C5]),
     (js ''phi'', Symbol [0x3D5]),
     (js ''varphi'', Symbol [0x3C6]),
     (js ''chi'', Symbol [0x3C7]),
     (js ''psi'', Symbol [0x3C8]),
     (js ''omega'', Symbol [0x3C9]),
     (js ''Gamma'', Symbol [0x393]),
     (js ''Delta'', Symbol [0x394]),
     (js ''Theta'', Symbol [0x398]),
     (js ''Lambda'', Symbol [0x39B]),
     (js ''Xi'', Symbol [0x39E]),
     (js ''Pi'', Symbol [0x3A0]),
     (js ''Sigma'', Symbol [0x3A3]),
     (js ''Upsilon'', Symbol [0x3A5]),
     (js ''Phi'', Symbol [0x3A6]),
     (js ''Psi'', Symbol [0x3A8]),
     (js ''Omega'', Symbol [0x3A9]),
     (js ''approx'', Symbol [0x2248]),
     (js ''bigcap'', Symbol [0x2229]),
     (js ''bigcup'', Symbol [0x222A]),
     (js ''cap'', Symbol [0x2229]),
     (js ''cup'', Symbol [0x222A]),
     (js ''equiv'', Symbol [0x2261]),
     (js ''exists'', Symbol [0x2203]),
     (js ''forall'', Symbol [0x2200]),
     (js ''int'', Symbol [0x222B]),
     (js ''sqrt'', Sqrt),
     (js ''sum'', Symbol [0x3A3]),
     (js ''vee'', Symbol [0x2228]),
     (js ''wedge'', Symbol [0x2227]),
     (js ''leftarrow'', Symbol [0x2190]),
     (js ''gets'', Symbol [0x2190]),
     (js ''Leftarrow'', Symbol [0x21D0]),
     (js ''rightarrow'', Symbol [0x2192]),
     (js ''to'', Symbol [0x2192]),
     (js ''Rightarrow'', Symbol [0x21D2]),
     (js ''leftrightarrow'', Symbol [0x2194]),
     (js ''Leftrightarrow'', Symbol [0x21D4]),
     (js ''mapsto'', Symbol [0x21A6]),
     (js ''hookleftarrow'', Symbol [0x21A9]),
     (js ''hookrightarrow'', Symbol [0x21AA]),
     (js ''leftharpoonup'', Symbol [0x21BC]),
     (js ''leftharpoondown'', Symbol [0x21BD]),
     (js ''rightharpoonup'', Symbol [0x21C0]),
     (js ''rightharpoondown'', Symbol [0x21C1]),
     (js ''rightleftharpoons'', Symbol [0x21CC]),
     (js ''uparrow'', Symbol [0x2191]),
     (js ''Uparrow'', Symbol [0x21D1]),
     (js ''downarrow'', Symbol [0x2193]),
     (js ''Downarrow'', Symbol [0x21D3]),
     (js ''updownarrow'', Symbol [0x2195]),
     (js ''Updownarrow'', Symbol [0x21D5]),
     ([0x20], Symbol [0x20]),
     (js ''quad'', Symbol [0x20]),
     ([0x3B], Symbol [0x20]),
     ([0x3A], Symbol [0x20]),
     ([0x2C], Symbol [0x20]),
     ([0x21], Symbol []),
     ([0x24], Symbol [0x24]),
     ([0x26], Symbol [0x26]),
     ([0x7B], Symbol [0x7B]),
     ([0x7D], Symbol [0x7D]),
     ([0x5C], Symbol [0x0A])]"


fun apply_mathfn :: "mathfn \<Rightarrow> jsstring list \<Rightarrow> jsstring" where
  "apply_mathfn (Symbol s) args = s"
| "apply_mathfn FirstArg args = (case args of [] \<Rightarrow> [] | s # _ \<Rightarrow> s)"
| "apply_mathfn Sqrt args =
     [0x221A, 0x28] @ (case args of [] \<Rightarrow> js ''undefined'' | arg # _ \<Rightarrow> arg) @ [0x29]"

definition is_letter :: "jschar \<Rightarrow> bool" where
  "is_letter c = ((0x41 \<le> c \<and> c \<le> 0x5A) \<or> (0x61 \<le> c \<and> c \<le> 0x7A))"

definition is_line_terminator :: "jschar \<Rightarrow> bool" where
  "is_line_terminator c = (c = 0x0A \<or> c = 0x0D \<or> c = 0x2028 \<or> c = 0x2029)"

definition is_open_delim :: "jschar \<Rightarrow> bool" where
  "is_open_delim c = (c = 0x7B \<or> c = 0x5B)"

definition is_delim :: "jschar \<Rightarrow> bool" where
  "is_delim c = (c = 0x7B \<or> c = 0x7D \<or> c = 0x5B \<or> c = 0x5D)"

text \<open>
  \<^verbatim>\<open>/\\((?:[A-Za-z]+)|.|)(?:(\{|\[)|\s+)?/.exec(math)\<close>.  The match starts at the
  first backslash.  Group 1 is the longest run of letters, else one character that
  is not a line terminator, else empty; then an opening brace or bracket (group 2),
  else a run of white space, else nothing.  Every later part of the pattern can
  match the empty string, so no alternative is ever given up by backtracking.
  The result is \<open>None\<close> for \<^verbatim>\<open>null\<close>, else the text before the match, group 1
  (\<open>macro_name\<close>), group 2 and the text after the match (\<open>macro_tail\<close>).
\<close>

definition macro_name :: "jsstring \<Rightarrow> jsstring" where
  "macro_name rest =
     (let letters = takeWhile is_letter rest
      in if letters \<noteq> [] then letters
         else case rest of
                [] \<Rightarrow> []
              | c # _ \<Rightarrow> if is_line_terminator c then [] else [c])"

definition macro_tail :: "jsstring \<Rightarrow> jschar option \<times> jsstring" where
  "macro_tail rest =
     (case rest of
        [] \<Rightarrow> (None, [])
      | c # r \<Rightarrow> if is_open_delim c then (Some c, r) else (None, dropWhile is_space rest))"

definition exec_macro ::
  "jsstring \<Rightarrow> (jsstring \<times> jsstring \<times> jschar option \<times> jsstring) option" where
  "exec_macro math =
     (let pre = takeWhile (\<lambda>c. c \<noteq> BSL) math
      in if length pre = length math then None
         else
           (let rest = drop (length pre + 1) math;
                fname = macro_name rest;
                (m2, math) = macro_tail (drop (length fname) rest)
            in Some (pre, fname, m2, math)))"

text \<open>\<^verbatim>\<open>str.search(/[{}\[\]]/)\<close>: the index of the first delimiter, \<open>None\<close> for \<open>-1\<close>.\<close>

fun search_delim :: "jsstring \<Rightarrow> nat option" where
  "search_delim [] = None"
| "search_delim (c # cs) = (if is_delim c then Some 0 else map_option Suc (search_delim cs))"

text \<open>\<^verbatim>\<open>/^\s*[{\[]/.exec(math)\<close>: the length of the match, \<open>None\<close> for \<^verbatim>\<open>null\<close>.\<close>

definition exec_next_arg :: "jsstring \<Rightarrow> nat option" where
  "exec_next_arg math =
     (case dropWhile is_space math of
        [] \<Rightarrow> None
      | c # _ \<Rightarrow> if is_open_delim c then Some (Suc (length (takeWhile is_space math))) else None)"

lemma search_delim_less: "search_delim s = Some n \<Longrightarrow> n < length s"
  by (induction s arbitrary: n) (auto split: if_splits)

text \<open>
  The inner loop \<^verbatim>\<open>while (true)\<close> that finds the arguments, on its variables
  \<^verbatim>\<open>math\<close>, \<^verbatim>\<open>last\<close> (here \<open>lasti\<close>), \<^verbatim>\<open>open\<close> (here \<open>opn\<close>) and
  \<^verbatim>\<open>args\<close>; \<open>nxt\<close> is \<^verbatim>\<open>next\<close>.  It returns the arguments, the rest of
  \<^verbatim>\<open>math\<close>, and, when no closing delimiter was found, the text that the warning
  \<^verbatim>\<open>UNTERMINATED MATH ARGUMENT\<close> reports.
\<close>

function find_args ::
  "jsstring \<Rightarrow> nat \<Rightarrow> int \<Rightarrow> jsstring list \<Rightarrow> jsstring list \<times> jsstring \<times> jsstring option" where
  "find_args math lasti opn args =
     (case search_delim (drop lasti math) of
        None \<Rightarrow> (args @ [math], [], Some math)
      | Some nxt \<Rightarrow>
          if is_open_delim (math ! (lasti + nxt))
          then find_args math (lasti + nxt + 1) (opn + 1) args
          else if opn - 1 = 0 then
            (let args = args @ [take (lasti + nxt) math];
                 math = drop (lasti + nxt + 1) math
             in case exec_next_arg math of
                  None \<Rightarrow> (args, math, None)
                | Some k \<Rightarrow> find_args (drop k math) 0 1 args)
          else find_args math (lasti + nxt + 1) (opn - 1) args)"
  by pat_completeness auto
termination
proof (relation "measure (\<lambda>(math, lasti, opn, args). length math - lasti)", goal_cases)
  case 1 show ?case by simp
next
  case (2 math lasti opn args nxt)
  then show ?case using search_delim_less[of "drop lasti math" nxt] by simp
next
  case (3 math lasti opn args nxt x xa k)
  then show ?case using search_delim_less[of "drop lasti math" nxt] by simp
next
  case (4 math lasti opn args nxt)
  then show ?case using search_delim_less[of "drop lasti math" nxt] by simp
qed

declare find_args.simps [simp del]

definition arg_weight :: "jsstring list \<Rightarrow> nat" where
  "arg_weight args = sum_list (map (\<lambda>a. Suc (length a)) args)"


lemma macro_tail_shorter:
  "macro_tail rest = (m2, math1) \<Longrightarrow>
   length math1 + (if m2 = None then 0 else 1) \<le> length rest"
  using length_dropWhile_le[of is_space rest]
  by (cases rest) (auto simp: macro_tail_def split: if_splits)

lemma exec_macro_shorter:
  assumes "exec_macro math = Some (pre, fname, m2, math1)"
  shows "length math1 + (if m2 = None then 1 else 2) \<le> length math"
proof -
  let ?pre = "takeWhile (\<lambda>c. c \<noteq> BSL) math"
  let ?rest = "drop (length ?pre + 1) math"
  from assms have ne: "length ?pre \<noteq> length math"
    and t: "macro_tail (drop (length (macro_name ?rest)) ?rest) = (m2, math1)"
    by (auto simp: exec_macro_def Let_def split: if_splits prod.splits)
  have "length ?pre \<le> length math" by (rule length_takeWhile_le)
  with ne have "Suc (length ?rest) \<le> length math" by simp
  moreover have "length (drop (length (macro_name ?rest)) ?rest) \<le> length ?rest" by simp
  ultimately show ?thesis using macro_tail_shorter[OF t] by (simp split: if_splits)
qed

lemma arg_weight_append [simp]: "arg_weight (xs @ ys) = arg_weight xs + arg_weight ys"
  by (simp add: arg_weight_def)

lemma arg_weight_single [simp]: "arg_weight [a] = Suc (length a)"
  by (simp add: arg_weight_def)

lemma exec_next_arg_le:
  assumes "exec_next_arg s = Some k"
  shows "0 < k \<and> k \<le> length s"
proof -
  from assms obtain c r where d: "dropWhile is_space s = c # r"
    and k: "k = Suc (length (takeWhile is_space s))"
    by (auto simp: exec_next_arg_def split: list.splits if_splits)
  have "length s = length (takeWhile is_space s) + length (dropWhile is_space s)"
    by (metis length_append takeWhile_dropWhile_id)
  with d k show ?thesis by simp
qed

lemma find_args_weight:
  "find_args math lasti opn args = (args', rest, u) \<Longrightarrow>
   arg_weight args' + length rest \<le> arg_weight args + length math + 1"
proof (induction math lasti opn args rule: find_args.induct)
  case (1 math lasti opn args)
  show ?case
  proof (cases "search_delim (drop lasti math)")
    case None
    with "1.prems" show ?thesis by (auto simp: find_args.simps[of math lasti])
  next
    case (Some nxt)
    note lt = search_delim_less[OF Some]
    show ?thesis
    proof (cases "is_open_delim (math ! (lasti + nxt))")
      case True
      with Some 1 show ?thesis by (simp add: find_args.simps[of math lasti])
    next
      case False
      show ?thesis
      proof (cases "opn - 1 = 0")
        case ne: False
        with False Some 1 show ?thesis by (simp add: find_args.simps[of math lasti])
      next
        case True
        let ?args = "args @ [take (lasti + nxt) math]"
        let ?math = "drop (lasti + nxt + 1) math"
        from lt have len: "length (take (lasti + nxt) math) + 1 + length ?math = length math"
          by simp
        show ?thesis
        proof (cases "exec_next_arg ?math")
          case None
          with True False Some "1.prems" have "args' = ?args" "rest = ?math"
            by (simp_all add: find_args.simps[of math lasti] Let_def)
          with len show ?thesis by simp
        next
          case (Some k)
          then have k: "0 < k \<and> k \<le> length ?math"
            by (rule exec_next_arg_le)
          from True False \<open>search_delim (drop lasti math) = Some nxt\<close> Some "1.prems"
          have "find_args (drop k ?math) 0 1 ?args = (args', rest, u)"
            by (simp add: find_args.simps[of math lasti] Let_def)
          from "1.IH"(2)[OF \<open>search_delim (drop lasti math) = Some nxt\<close> False True refl refl Some this]
          have "arg_weight args' + length rest \<le> arg_weight ?args + length (drop k ?math) + 1" .
          with k len show ?thesis by simp
        qed
      qed
    qed
  qed
qed

text \<open>
  The check and the update of \<^verbatim>\<open>warned\<close> for a name that \<^verbatim>\<open>funcMap\<close> does not have.
  \<^verbatim>\<open>warned.hasOwnProperty(fname)\<close> calls the property \<^verbatim>\<open>hasOwnProperty\<close> of
  \<^verbatim>\<open>warned\<close>: once \<^verbatim>\<open>warned['hasOwnProperty'] = true\<close> has been stored, that
  property is \<^verbatim>\<open>true\<close>, not the inherited method, and the call raises a TypeError.
  (The names stored are runs of letters, single characters or empty.)
\<close>

definition warn_unknown :: "jsstring \<Rightarrow> globals \<Rightarrow> error + globals" where
  "warn_unknown fname g =
     (if js ''hasOwnProperty'' \<in> warned g then Inl TypeError
      else if fname \<in> warned g then Inr g
      else Inr (g\<lparr> console := console g @ [UnknownMathFunction fname],
                    warned := insert fname (warned g) \<rparr>))"

lemma andThen_cong [fundef_cong]:
  "m = m' \<Longrightarrow> (\<And>x. m' = Inr x \<Longrightarrow> f x = f' x) \<Longrightarrow> andThen m f = andThen m' f'"
  by (cases m') (auto simp: andThen_def)

lemma cleanMath_loop_measure:
  assumes "exec_macro math = Some (pre, fname, m2, math1)"
    and "(args, math2, u) = (if m2 \<noteq> None then find_args math1 0 1 [] else ([], math1, None))"
  shows "arg_weight args + length math2 < length math"
proof (cases "m2 = None")
  case True
  with assms(2) have "args = []" "math2 = math1" by simp_all
  with exec_macro_shorter[OF assms(1)] True show ?thesis by (simp add: arg_weight_def)
next
  case False
  with assms(2) have "find_args math1 0 1 [] = (args, math2, u)" by simp
  from find_args_weight[OF this] exec_macro_shorter[OF assms(1)] False
  show ?thesis by (simp add: arg_weight_def)
qed

text \<open>
  \<^verbatim>\<open>cleanMath\<close>.  \<open>cleanMath_loop math result g\<close> is the outer \<^verbatim>\<open>while (true)\<close> loop
  on the variables \<^verbatim>\<open>math\<close> and \<^verbatim>\<open>result\<close>; \<open>cleanMath_args\<close> is
  \<^verbatim>\<open>args.map(cleanMath)\<close>, which interprets the arguments from left to right.
  When group 2 is absent, \<^verbatim>\<open>args\<close> stays empty.
\<close>

function cleanMath_loop :: "jsstring \<Rightarrow> jsstring \<Rightarrow> globals \<Rightarrow> error + (jsstring \<times> globals)"
  and cleanMath_args :: "jsstring list \<Rightarrow> globals \<Rightarrow> error + (jsstring list \<times> globals)"
where
  "cleanMath_loop math result g =
     (case exec_macro math of
        None \<Rightarrow> Inr (result @ subsup math, g)
      | Some (pre, fname, m2, math1) \<Rightarrow>
          (let result = result @ pre;
               (args, math2, unterminated) =
                  (if m2 \<noteq> None then find_args math1 0 1 [] else ([], math1, None));
               g = (case unterminated of
                      None \<Rightarrow> g
                    | Some rest \<Rightarrow>
                        g\<lparr> console := console g @ [UnterminatedMathArgument fname rest] \<rparr>)
           in andThen (cleanMath_args args g) (\<lambda>(args, g).
                case map_of funcMap fname of
                  None \<Rightarrow>
                    andThen (warn_unknown fname g) (\<lambda>g.
                      cleanMath_loop math2
                        (result @ [BSL] @ fname @
                           concat (map (\<lambda>a. [0x7B] @ a @ [0x7D]) args) @ [SP]) g)
                | Some fn \<Rightarrow>
                    cleanMath_loop math2 (result @ apply_mathfn fn args) g)))"
| "cleanMath_args [] g = Inr ([], g)"
| "cleanMath_args (a # as) g =
     andThen (cleanMath_loop a [] g) (\<lambda>(r, g).
       andThen (cleanMath_args as g) (\<lambda>(rs, g). Inr (r # rs, g)))"
  by pat_completeness auto

termination
proof (relation "measure (\<lambda>x. case x of
          Inl (math, result, g) \<Rightarrow> 2 * length math + 1
        | Inr (args, g) \<Rightarrow> 2 * arg_weight args)", goal_cases)
  case 1 show ?case by simp
next
  case (2 math result g x2 x y xa ya xb yb xc xd xe yc xf yd xg)
  then have "exec_macro math = Some (x, xa, xb, yb)"
    and "(xe, xf, yd) = (if xb \<noteq> None then find_args yb 0 1 [] else ([], yb, None))"
    by auto
  from cleanMath_loop_measure[OF this] show ?case by simp
next
  case (3 math result g x2 x y xa ya xb yb xc xd xe yc xf yd xg xh xi ye xj)
  then have "exec_macro math = Some (x, xa, xb, yb)"
    and "(xe, xf, yd) = (if xb \<noteq> None then find_args yb 0 1 [] else ([], yb, None))"
    by auto
  from cleanMath_loop_measure[OF this] show ?case by simp
next
  case (4 math result g x2 x y xa ya xb yb xc xd xe yc xf yd xg xh xi ye x2a)
  then have "exec_macro math = Some (x, xa, xb, yb)"
    and "(xe, xf, yd) = (if xb \<noteq> None then find_args yb 0 1 [] else ([], yb, None))"
    by auto
  from cleanMath_loop_measure[OF this] show ?case by simp
next
  case (5 a as g)
  show ?case by (simp add: arg_weight_def)
next
  case (6 a as g x xa y)
  show ?case by (simp add: arg_weight_def)
qed


declare cleanMath_loop.simps [simp del]

definition cleanMath :: "jsstring \<Rightarrow> globals \<Rightarrow> error + (jsstring \<times> globals)" where
  "cleanMath math g = cleanMath_loop math [] g"


text \<open>
  \<open>closes opn s\<close>: counting nesting depth over the delimiters of \<open>s\<close> from \<open>opn\<close> open
  ones, a closing delimiter brings the depth to zero: the argument has a matching
  close.
\<close>

fun closes :: "int \<Rightarrow> jsstring \<Rightarrow> bool" where
  "closes opn [] = False"
| "closes opn (c # cs) =
     (if is_open_delim c then closes (opn + 1) cs
      else if is_delim c then opn - 1 = 0 \<or> closes (opn - 1) cs
      else closes opn cs)"

text \<open>The state of a fresh process: nothing warned, nothing logged.\<close>

definition globals0 :: globals where
  "globals0 = \<lparr> warned = {}, console = [] \<rparr>"

section \<open>JSON values\<close>

text \<open>
  What \<^verbatim>\<open>JSON.parse\<close> returns.  The program never looks at the value of a number.
\<close>

datatype json =
    JNull | JBool bool | JNumber int | JString jsstring
  | JArray "json list" | JObject "(jsstring \<times> json) list"

text \<open>
  Property access \<^verbatim>\<open>x.key\<close> and \<^verbatim>\<open>x[0]\<close>.  A value that may be \<^verbatim>\<open>undefined\<close> is
  a \<open>json option\<close>.  Access on \<^verbatim>\<open>undefined\<close> or \<^verbatim>\<open>null\<close> raises a TypeError;
  on a primitive it gives \<^verbatim>\<open>undefined\<close>.  The keys the program reads
  (\<^verbatim>\<open>parts\<close>, \<^verbatim>\<open>0\<close>, \<^verbatim>\<open>template\<close>, \<^verbatim>\<open>target\<close>, \<^verbatim>\<open>href\<close>, \<^verbatim>\<open>body\<close>, \<^verbatim>\<open>extsrc\<close>) are not
  inherited from any prototype, so only own properties and the index \<^verbatim>\<open>0\<close> of an
  array or a string answer.
\<close>

fun get_prop :: "json option \<Rightarrow> jsstring \<Rightarrow> error + json option" where
  "get_prop None k = Inl TypeError"
| "get_prop (Some JNull) k = Inl TypeError"
| "get_prop (Some (JObject kvs)) k = Inr (map_of kvs k)"
| "get_prop (Some (JArray xs)) k =
     Inr (if k = js ''0'' then (case xs of [] \<Rightarrow> None | x # _ \<Rightarrow> Some x) else None)"
| "get_prop (Some (JString s)) k =
     Inr (if k = js ''0'' then (case s of [] \<Rightarrow> None | c # _ \<Rightarrow> Some (JString [c])) else None)"
| "get_prop (Some (JBool b)) k = Inr None"
| "get_prop (Some (JNumber n)) k = Inr None"

section \<open>Document nodes\<close>

text \<open>
  A node of the document tree, as far as the visitor reads it: an element with its
  \<^verbatim>\<open>nodeName\<close>, attributes and children; a text or CDATA node with its data; any
  other node.
\<close>

datatype node =
    Element jsstring "(jsstring \<times> jsstring) list" "node list"
  | Text jsstring
  | Other

fun nodeName :: "node \<Rightarrow> jsstring" where
  "nodeName (Element name attrs cs) = name"
| "nodeName (Text d) = js ''#text''"
| "nodeName Other = js ''#comment''"

fun getAttribute :: "node \<Rightarrow> jsstring \<Rightarrow> jsstring option" where
  "getAttribute (Element name attrs cs) k = map_of attrs k"
| "getAttribute (Text d) k = None"
| "getAttribute Other k = None"

definition hasAttribute :: "node \<Rightarrow> jsstring \<Rightarrow> bool" where
  "hasAttribute n k = (getAttribute n k \<noteq> None)"

fun childNodes :: "node \<Rightarrow> node list" where
  "childNodes (Element name attrs cs) = cs"
| "childNodes (Text d) = []"
| "childNodes Other = []"

fun is_element :: "node \<Rightarrow> bool" where
  "is_element (Element name attrs cs) = True"
| "is_element (Text d) = False"
| "is_element Other = False"

text \<open>The element children: \<^verbatim>\<open>firstElementChild\<close> and the chain of
  \<^verbatim>\<open>nextElementSibling\<close>.\<close>

definition element_children :: "node \<Rightarrow> node list" where
  "element_children n = filter is_element (childNodes n)"

text \<open>\<^verbatim>\<open>node.classList.contains(c)\<close>: the \<^verbatim>\<open>class\<close> attribute, split at ASCII white space.\<close>

definition is_ascii_space :: "jschar \<Rightarrow> bool" where
  "is_ascii_space c = (c = 0x09 \<or> c = 0x0A \<or> c = 0x0C \<or> c = 0x0D \<or> c = 0x20)"

function tokens :: "jsstring \<Rightarrow> jsstring list" where
  "tokens s =
     (case dropWhile is_ascii_space s of
        [] \<Rightarrow> []
      | c # cs \<Rightarrow>
          (c # takeWhile (\<lambda>d. \<not> is_ascii_space d) cs)
            # tokens (dropWhile (\<lambda>d. \<not> is_ascii_space d) cs))"
  by pat_completeness auto
termination
proof (relation "measure length", goal_cases)
  case 1 show ?case by simp
next
  case (2 s c cs)
  have "length (dropWhile (\<lambda>d. \<not> is_ascii_space d) cs) \<le> length cs"
    by (rule length_dropWhile_le)
  moreover have "length (dropWhile is_ascii_space s) \<le> length s"
    by (rule length_dropWhile_le)
  ultimately show ?case using 2 by simp
qed

declare tokens.simps [simp del]

definition classList_contains :: "node \<Rightarrow> jsstring \<Rightarrow> bool" where
  "classList_contains n c =
     (c \<in> set (tokens (case getAttribute n (js ''class'') of None \<Rightarrow> [] | Some s \<Rightarrow> s)))"

section \<open>What the repository takes from outside\<close>

text \<open>
  The modules and built-ins the visitor calls that are not in the repository's
  source, as parameters of the model:
  \<^item> \<open>linewrap\<close>, the \<^verbatim>\<open>linewrap\<close> package;
  \<^item> \<open>JSON_parse\<close>, \<^verbatim>\<open>JSON.parse\<close> on a string (\<open>None\<close>: it raises a SyntaxError);
  \<^item> \<open>ToString\<close>, the text of a JSON value that is not a string when a regular
    expression is applied to it;
  \<^item> \<open>Polyglossia_lookup\<close>, \<^verbatim>\<open>Polyglossia.lookup(lang).dir\<close>: an error if the lookup
    or the access raises, else the direction, \<open>None\<close> for \<^verbatim>\<open>undefined\<close>;
  \<^item> \<open>first_child\<close>, whether \<^verbatim>\<open>DomUtil.first_child(node)\<close> finds a child;
  \<^item> \<open>selector_error\<close>, the error that \<^verbatim>\<open>querySelectorAll\<close> raises on a selector,
    if any (its result is only passed to \<^verbatim>\<open>visitFIGURE\<close>, which ignores it).
\<close>

record env =
  linewrap :: linewrap
  JSON_parse :: "jsstring \<Rightarrow> json option"
  ToString :: "json \<Rightarrow> jsstring"
  Polyglossia_lookup :: "jsstring option \<Rightarrow> error + jsstring option"
  first_child :: "node \<Rightarrow> bool"
  selector_error :: "jsstring \<Rightarrow> error option"

text \<open>\<^verbatim>\<open>JSON.parse(node.getAttribute(...))\<close>: a missing attribute is \<^verbatim>\<open>null\<close>, which
  \<^verbatim>\<open>JSON.parse\<close> reads as the text \<^verbatim>\<open>null\<close>.\<close>

definition parse_attribute :: "env \<Rightarrow> jsstring option \<Rightarrow> error + json" where
  "parse_attribute e a =
     (case a of
        None \<Rightarrow> Inr JNull
      | Some s \<Rightarrow> (case JSON_parse e s of None \<Rightarrow> Inl SyntaxError | Some j \<Rightarrow> Inr j))"

section \<open>Hidden content\<close>

text \<open>The body of the \<^verbatim>\<open>try\<close> block of \<^verbatim>\<open>isMultipleImageTemplate\<close>.\<close>

definition template_href :: "env \<Rightarrow> node \<Rightarrow> error + json option" where
  "template_href e node =
     andThen (parse_attribute e (getAttribute node (js ''data-mw''))) (\<lambda>data.
     andThen (get_prop (Some data) (js ''parts'')) (\<lambda>parts.
     andThen (get_prop parts (js ''0'')) (\<lambda>part.
     andThen (get_prop part (js ''template'')) (\<lambda>template.
     andThen (get_prop template (js ''target'')) (\<lambda>target.
       get_prop target (js ''href''))))))"

text \<open>\<^verbatim>\<open>isMultipleImageTemplate\<close>: every exception of the \<^verbatim>\<open>try\<close> block is caught.\<close>

definition isMultipleImageTemplate :: "env \<Rightarrow> node \<Rightarrow> bool" where
  "isMultipleImageTemplate e node =
     (if getAttribute node (js ''typeof'') = Some (js ''mw:Transclusion'') then
        (case template_href e node of
           Inl exn \<Rightarrow> False
         | Inr href \<Rightarrow>
             href = Some (JString (js ''./Template:Triple_image'')) \<or>
             href = Some (JString (js ''./Template:Double_image'')))
      else False)"

text \<open>
  \<^verbatim>\<open>/(^|;)\s*display\s*:\s*none\s*(;|$)/i.test(style)\<close>.  A letter of the pattern
  matches itself in either case (no other code unit has an ASCII letter as its
  canonical form).  \<open>style_decl t\<close> matches the pattern after \<^verbatim>\<open>(^|;)\<close> at the
  start of \<open>t\<close>; the test tries the start of the text and every position after a
  semicolon.
\<close>

fun ci_prefix :: "string \<Rightarrow> jsstring \<Rightarrow> jsstring option" where
  "ci_prefix [] t = Some t"
| "ci_prefix (p # ps) [] = None"
| "ci_prefix (p # ps) (c # cs) =
     (if c = of_char p \<or> c + 0x20 = of_char p then ci_prefix ps cs else None)"

definition style_decl :: "jsstring \<Rightarrow> bool" where
  "style_decl t =
     (case ci_prefix ''display'' (dropWhile is_space t) of
        None \<Rightarrow> False
      | Some t1 \<Rightarrow>
          (case dropWhile is_space t1 of
             [] \<Rightarrow> False
           | c # t2 \<Rightarrow>
               c = 0x3A \<and>
               (case ci_prefix ''none'' (dropWhile is_space t2) of
                  None \<Rightarrow> False
                | Some t3 \<Rightarrow>
                    (case dropWhile is_space t3 of
                       [] \<Rightarrow> True
                     | d # _ \<Rightarrow> d = 0x3B))))"

fun style_after_semicolon :: "jsstring \<Rightarrow> bool" where
  "style_after_semicolon [] = False"
| "style_after_semicolon (c # cs) =
     ((c = 0x3B \<and> style_decl cs) \<or> style_after_semicolon cs)"

definition style_display_none :: "jsstring \<Rightarrow> bool" where
  "style_display_none s = (style_decl s \<or> style_after_semicolon s)"

definition isHidden :: "env \<Rightarrow> node \<Rightarrow> bool" where
  "isHidden e node =
     (if isMultipleImageTemplate e node then False
      else if classList_contains node (js ''noprint'') then True
      else if style_display_none
                (case getAttribute node (js ''style'') of None \<Rightarrow> [] | Some s \<Rightarrow> s)
           then True
      else if list_ex (classList_contains node)
                [js ''infobox'', js ''navbox'', js ''rellink'', js ''dablink'',
                 js ''toplink'', js ''metadata'']
           then True
      else False)"


section \<open>The collector and the active sink\<close>

text \<open>
  The object that \<^verbatim>\<open>collect\<close> installs as \<^verbatim>\<open>this.format\<close>: its two flags and the
  array \<^verbatim>\<open>b\<close> it pushes to (\<open>c_b\<close>).  It has no \<^verbatim>\<open>writeHeading\<close> method.
\<close>

record collector =
  c_newLine :: bool
  c_newPara :: bool
  c_b :: "jsstring list"

definition collector_write :: "jsstring \<Rightarrow> collector \<Rightarrow> collector" where
  "collector_write text c = c\<lparr> c_newLine := False, c_newPara := False, c_b := c_b c @ [text] \<rparr>"

definition collector_lineBreak :: "collector \<Rightarrow> collector" where
  "collector_lineBreak c =
     (if \<not> c_newLine c then c\<lparr> c_b := c_b c @ [[SP]], c_newLine := True \<rparr> else c)"

definition collector_paragraphBreak :: "collector \<Rightarrow> collector" where
  "collector_paragraphBreak c =
     (if \<not> c_newPara c then (collector_lineBreak c)\<lparr> c_newPara := True \<rparr> else c)"

definition collector_indent :: "jsstring option \<Rightarrow> collector \<Rightarrow> collector" where
  "collector_indent tag c =
     (let c = collector_lineBreak c
      in if truthy tag then c\<lparr> c_b := c_b c @ [the tag, [SP]] \<rparr> else c)"

definition collector_dedent :: "collector \<Rightarrow> collector" where
  "collector_dedent c = collector_lineBreak c"

text \<open>\<^verbatim>\<open>this.format\<close> is the Formatter or a collector.\<close>

datatype sink = Layout formatter | Collect collector

definition sink_write :: "jsstring \<Rightarrow> sink \<Rightarrow> sink" where
  "sink_write text s =
     (case s of Layout f \<Rightarrow> Layout (Formatter_write text f)
              | Collect c \<Rightarrow> Collect (collector_write text c))"

definition sink_lineBreak :: "sink \<Rightarrow> error + sink" where
  "sink_lineBreak s =
     (case s of Layout f \<Rightarrow> andThen (Formatter_lineBreak f) (\<lambda>f. Inr (Layout f))
              | Collect c \<Rightarrow> Inr (Collect (collector_lineBreak c)))"

definition sink_paragraphBreak :: "sink \<Rightarrow> error + sink" where
  "sink_paragraphBreak s =
     (case s of Layout f \<Rightarrow> andThen (Formatter_paragraphBreak f) (\<lambda>f. Inr (Layout f))
              | Collect c \<Rightarrow> Inr (Collect (collector_paragraphBreak c)))"

definition sink_indent :: "linewrap \<Rightarrow> jsstring option \<Rightarrow> sink \<Rightarrow> error + sink" where
  "sink_indent lw tag s =
     (case s of Layout f \<Rightarrow> andThen (Formatter_indent lw tag f) (\<lambda>f. Inr (Layout f))
              | Collect c \<Rightarrow> Inr (Collect (collector_indent tag c)))"

definition sink_dedent :: "sink \<Rightarrow> error + sink" where
  "sink_dedent s =
     (case s of Layout f \<Rightarrow> andThen (Formatter_dedent f) (\<lambda>f. Inr (Layout f))
              | Collect c \<Rightarrow> Inr (Collect (collector_dedent c)))"

definition sink_writeHeading :: "jsstring \<Rightarrow> sink \<Rightarrow> error + sink" where
  "sink_writeHeading heading s =
     (case s of Layout f \<Rightarrow> andThen (Formatter_writeHeading heading f) (\<lambda>f. Inr (Layout f))
              | Collect c \<Rightarrow> Inl TypeError)"

text \<open>The array \<^verbatim>\<open>b\<close> of the collector that is the sink (none if it is the
  Formatter, which does not happen where this is read).\<close>

definition collected :: "sink \<Rightarrow> jsstring list" where
  "collected s = (case s of Layout f \<Rightarrow> [] | Collect c \<Rightarrow> c_b c)"

section \<open>The Visitor\<close>

text \<open>The options the Visitor reads.\<close>

record voptions =
  noRefs :: bool
  hasChapters :: bool
  singleItem :: bool
  lang :: "jsstring option"
  dir :: "jsstring option"

text \<open>
  \<^verbatim>\<open>this.listInfo\<close>.  The first object is \<^verbatim>\<open>{ depth: 0 }\<close>: its \<^verbatim>\<open>type\<close> and \<^verbatim>\<open>num\<close> are
  \<^verbatim>\<open>undefined\<close> (\<open>None\<close>) and its \<^verbatim>\<open>sawDT\<close> is falsy.  Each object is replaced, not
  shared: a handler only changes the object that is current, and the saved one is
  put back unchanged, so the object is a value of the state.
\<close>

record listInfo =
  li_type :: "jsstring option"
  num :: "int option"
  depth :: int
  sawDT :: bool

text \<open>
  The Visitor object.  \<open>templates\<close> is the set of keys of \<^verbatim>\<open>this.templates\<close>.  A
  language or a direction is a string or absent (\<^verbatim>\<open>null\<close>, \<^verbatim>\<open>undefined\<close>).
  \<open>world\<close> is the state outside the object that its methods change.
\<close>

record visitor =
  format :: sink
  voptions :: voptions
  templates :: "jsstring set"
  currentLanguage :: "jsstring option"
  tocLanguage :: "jsstring option"
  currentDirectionality :: "jsstring option"
  usedLanguages :: "jsstring option set"
  listInfo :: listInfo
  world :: globals

definition Visitor :: "sink \<Rightarrow> voptions \<Rightarrow> globals \<Rightarrow> visitor" where
  "Visitor fmt opts g =
     \<lparr> format = fmt, voptions = opts, templates = {},
       currentLanguage = (if truthy (lang opts) then lang opts else Some (js ''en'')),
       tocLanguage = (if truthy (lang opts) then lang opts else Some (js ''en'')),
       currentDirectionality = (if truthy (dir opts) then dir opts else Some (js ''ltr'')),
       usedLanguages = {},
       listInfo = \<lparr> li_type = None, num = None, depth = 0, sawDT = False \<rparr>,
       world = g \<rparr>"

text \<open>Calls of the methods of \<^verbatim>\<open>this.format\<close>.\<close>

definition format_write :: "jsstring \<Rightarrow> visitor \<Rightarrow> visitor" where
  "format_write text v = v\<lparr> format := sink_write text (format v) \<rparr>"

definition format_lineBreak :: "visitor \<Rightarrow> error + visitor" where
  "format_lineBreak v = andThen (sink_lineBreak (format v)) (\<lambda>s. Inr (v\<lparr> format := s \<rparr>))"

definition format_paragraphBreak :: "visitor \<Rightarrow> error + visitor" where
  "format_paragraphBreak v =
     andThen (sink_paragraphBreak (format v)) (\<lambda>s. Inr (v\<lparr> format := s \<rparr>))"

definition format_indent :: "env \<Rightarrow> jsstring option \<Rightarrow> visitor \<Rightarrow> error + visitor" where
  "format_indent e tag v =
     andThen (sink_indent (linewrap e) tag (format v)) (\<lambda>s. Inr (v\<lparr> format := s \<rparr>))"

definition format_dedent :: "visitor \<Rightarrow> error + visitor" where
  "format_dedent v = andThen (sink_dedent (format v)) (\<lambda>s. Inr (v\<lparr> format := s \<rparr>))"

definition format_writeHeading :: "jsstring \<Rightarrow> visitor \<Rightarrow> error + visitor" where
  "format_writeHeading heading v =
     andThen (sink_writeHeading heading (format v)) (\<lambda>s. Inr (v\<lparr> format := s \<rparr>))"

text \<open>
  \<^verbatim>\<open>collect(node, f)\<close>.  \<open>vc\<close> is \<^verbatim>\<open>this.visitChildren(node)\<close>.  The text is read from
  the array \<^verbatim>\<open>b\<close> of the collector installed here, which is the sink again when
  \<open>vc\<close> returns.  An exception in \<open>vc\<close> leaves the method before the sink is put
  back.
\<close>

definition collect ::
  "(visitor \<Rightarrow> error + visitor) \<Rightarrow> (jsstring \<Rightarrow> visitor \<Rightarrow> error + visitor) \<Rightarrow>
   visitor \<Rightarrow> error + visitor" where
  "collect vc f v =
     (let wasFormat = format v
      in andThen (vc (v\<lparr> format := Collect \<lparr> c_newLine = True, c_newPara = True, c_b = [] \<rparr> \<rparr>))
           (\<lambda>v. let text = collapse_space (concat (collected (format v)))
                in f text (v\<lparr> format := wasFormat \<rparr>)))"

text \<open>The case \<^verbatim>\<open>TEXT_NODE\<close>/\<^verbatim>\<open>CDATA_SECTION_NODE\<close> of \<^verbatim>\<open>visit\<close>.\<close>

definition visit_text :: "jsstring \<Rightarrow> visitor \<Rightarrow> visitor" where
  "visit_text d v = (let text = textEscape d in if text \<noteq> [] then format_write text v else v)"

section \<open>Handlers without recursion of their own\<close>

text \<open>\<^verbatim>\<open>subre.test(contents)\<close> and \<^verbatim>\<open>supre.test(contents)\<close>: one or more characters,
  all of them keys of the table.\<close>

definition table_test :: "(jschar \<times> jschar) list \<Rightarrow> jsstring \<Rightarrow> bool" where
  "table_test m contents = (contents \<noteq> [] \<and> list_all (\<lambda>c. map_of m c \<noteq> None) contents)"

definition write_script :: "(jschar \<times> jschar) list \<Rightarrow> jsstring \<Rightarrow> visitor \<Rightarrow> error + visitor" where
  "write_script m contents v =
     Inr (if table_test m contents then format_write (translit m contents) v
          else format_write (textEscape contents) v)"

definition visitSUB :: "(visitor \<Rightarrow> error + visitor) \<Rightarrow> visitor \<Rightarrow> error + visitor" where
  "visitSUB vc v = collect vc (write_script submap) v"

definition visitSUP :: "node \<Rightarrow> (visitor \<Rightarrow> error + visitor) \<Rightarrow> visitor \<Rightarrow> error + visitor" where
  "visitSUP node vc v =
     (if noRefs (voptions v) \<and> classList_contains node (js ''Template-Fact'') then Inr v
      else collect vc (write_script supmap) v)"

definition visitP :: "(visitor \<Rightarrow> error + visitor) \<Rightarrow> visitor \<Rightarrow> error + visitor" where
  "visitP vc v = andThen (format_paragraphBreak v) (\<lambda>v. andThen (vc v) format_paragraphBreak)"

definition visitCENTER :: "(visitor \<Rightarrow> error + visitor) \<Rightarrow> visitor \<Rightarrow> error + visitor" where
  "visitCENTER vc v = andThen (format_lineBreak v) (\<lambda>v. andThen (vc v) format_lineBreak)"

text \<open>
  \<^verbatim>\<open>visitHn(node, n)\<close>; \<open>n\<close> is \<open>None\<close> when the argument is missing, and then
  \<^verbatim>\<open>n -= 1\<close> makes it \<^verbatim>\<open>NaN\<close>, which is not \<^verbatim>\<open>0\<close>.  The level is not used by
  \<^verbatim>\<open>writeHeading\<close>.
\<close>

definition visitHn ::
  "int option \<Rightarrow> (visitor \<Rightarrow> error + visitor) \<Rightarrow> visitor \<Rightarrow> error + visitor" where
  "visitHn n vc v =
     (let n = (if \<not> hasChapters (voptions v) then map_option (\<lambda>n. n - 1) n else n)
      in if singleItem (voptions v) \<and> n = Some 0 then Inr v
         else collect vc format_writeHeading v)"

text \<open>\<^verbatim>\<open>/^\[\d+\]$/.test(contents)\<close> and \<^verbatim>\<open>contents.slice(1, -1)\<close>.\<close>

definition is_digit :: "jschar \<Rightarrow> bool" where
  "is_digit c = (0x30 \<le> c \<and> c \<le> 0x39)"

definition is_reference_mark :: "jsstring \<Rightarrow> bool" where
  "is_reference_mark contents =
     (case contents of
        [] \<Rightarrow> False
      | c # cs \<Rightarrow> c = 0x5B \<and> cs \<noteq> [] \<and> last cs = 0x5D \<and> butlast cs \<noteq> [] \<and>
                 list_all is_digit (butlast cs))"

text \<open>
  \<^verbatim>\<open>visitREL=dc:references\<close>.  For a reference mark the node is replaced by a new
  \<^verbatim>\<open>sup\<close> element whose only child is the text node of the number and a space;
  \<^verbatim>\<open>visitSUP\<close> then collects that text node.  Otherwise \<^verbatim>\<open>visitSUP\<close> visits the
  children of the node a second time.
\<close>

definition visitREL_dc_references ::
  "node \<Rightarrow> (visitor \<Rightarrow> error + visitor) \<Rightarrow> visitor \<Rightarrow> error + visitor" where
  "visitREL_dc_references node vc v =
     (if noRefs (voptions v) then Inr v
      else collect vc (\<lambda>contents v.
             if is_reference_mark contents then
               (let textContent = butlast (tl contents) @ [SP]
                in visitSUP (Element (js ''SUP'') [] [Text textContent])
                     (\<lambda>v. Inr (visit_text textContent v)) v)
             else visitSUP node vc v) v)"

text \<open>\<^verbatim>\<open>visitUL\<close> and \<^verbatim>\<open>visitOL\<close> (one function).\<close>

definition visitOL ::
  "env \<Rightarrow> node \<Rightarrow> (visitor \<Rightarrow> error + visitor) \<Rightarrow> visitor \<Rightarrow> error + visitor" where
  "visitOL e node vc v =
     (if \<not> first_child e node then Inr v
      else
        (let wasListInfo = listInfo v
         in andThen (vc (v\<lparr> listInfo := \<lparr> li_type = Some (nodeName node), num = Some 0,
                                          depth = depth wasListInfo + 1, sawDT = False \<rparr> \<rparr>))
              (\<lambda>v. Inr (v\<lparr> listInfo := wasListInfo \<rparr>))))"

text \<open>
  \<^verbatim>\<open>this.listInfo === 'OL'\<close> compares the object \<^verbatim>\<open>this.listInfo\<close> with a string by
  strict equality: an object is never strictly equal to a string.
\<close>

definition listInfo_is_string :: "listInfo \<Rightarrow> jsstring \<Rightarrow> bool" where
  "listInfo_is_string li s = False"

text \<open>The decimal text of a number that is not negative, and \<^verbatim>\<open>NaN\<close> for the
  increment of \<^verbatim>\<open>undefined\<close>.\<close>

function decimal :: "nat \<Rightarrow> jsstring" where
  "decimal n = (if n < 10 then [0x30 + of_nat n] else decimal (n div 10) @ [0x30 + of_nat (n mod 10)])"
  by pat_completeness auto
termination
  by (relation "measure id") auto

declare decimal.simps [simp del]

definition number_text :: "int option \<Rightarrow> jsstring" where
  "number_text n =
     (case n of None \<Rightarrow> js ''NaN''
      | Some i \<Rightarrow> if i < 0 then [0x2D] @ decimal (nat (- i)) else decimal (nat i))"

text \<open>\<^verbatim>\<open>str.charAt(i)\<close> for an index that is not negative.\<close>

definition charAt :: "jsstring \<Rightarrow> int \<Rightarrow> jsstring" where
  "charAt s i = (if 0 \<le> i \<and> nat i < length s then [s ! nat i] else [])"

text \<open>
  \<^verbatim>\<open>visitLI\<close>.  The depth is never negative, so \<^verbatim>\<open>%\<close> is \<open>mod\<close>.
\<close>

definition visitLI ::
  "env \<Rightarrow> (visitor \<Rightarrow> error + visitor) \<Rightarrow> visitor \<Rightarrow> error + visitor" where
  "visitLI e vc v =
     (let d = depth (listInfo v) mod 3;
          tag = charAt (js ''*-+'') d;
          (tag, v) =
            (if listInfo_is_string (listInfo v) (js ''OL'') then
               (let n = map_option (\<lambda>n. n + 1) (num (listInfo v))
                in (number_text n @ charAt (js ''.)]'') d,
                    v\<lparr> listInfo := (listInfo v)\<lparr> num := n \<rparr> \<rparr>))
             else (tag, v))
      in andThen (format_indent e (Some tag) v) (\<lambda>v. andThen (vc v) format_dedent))"

text \<open>\<^verbatim>\<open>visitDT\<close>, \<^verbatim>\<open>visitDD\<close> and \<^verbatim>\<open>visitBLOCKQUOTE\<close>.\<close>

definition set_sawDT :: "bool \<Rightarrow> visitor \<Rightarrow> visitor" where
  "set_sawDT x v = v\<lparr> listInfo := (listInfo v)\<lparr> sawDT := x \<rparr> \<rparr>"

definition visitDT ::
  "env \<Rightarrow> (visitor \<Rightarrow> error + visitor) \<Rightarrow> visitor \<Rightarrow> error + visitor" where
  "visitDT e vc v =
     andThen (if sawDT (listInfo v)
              then andThen (format_dedent v) (\<lambda>v. Inr (set_sawDT False v))
              else Inr v)
       (collect vc (\<lambda>contents v.
          andThen (format_indent e (Some contents) v) (\<lambda>v. Inr (set_sawDT True v))))"

definition visitDD ::
  "env \<Rightarrow> (visitor \<Rightarrow> error + visitor) \<Rightarrow> visitor \<Rightarrow> error + visitor" where
  "visitDD e vc v =
     andThen (if \<not> sawDT (listInfo v)
              then andThen (format_indent e None v) (\<lambda>v. Inr (set_sawDT True v))
              else Inr v)
       vc"

definition visitBLOCKQUOTE ::
  "env \<Rightarrow> (visitor \<Rightarrow> error + visitor) \<Rightarrow> visitor \<Rightarrow> error + visitor" where
  "visitBLOCKQUOTE e vc v =
     andThen (format_indent e None v) (\<lambda>v. andThen (vc v) format_dedent)"


section \<open>The math extension handler\<close>

fun strip_prefix :: "jsstring \<Rightarrow> jsstring \<Rightarrow> jsstring option" where
  "strip_prefix [] t = Some t"
| "strip_prefix (p # ps) [] = None"
| "strip_prefix (p # ps) (c # cs) = (if c = p then strip_prefix ps cs else None)"

text \<open>\<^verbatim>\<open>[*]?\s*\}\<close> at the start of a text: the text after the match.\<close>

definition close_brace :: "jsstring \<Rightarrow> jsstring option" where
  "close_brace t =
     (let t = (case t of [] \<Rightarrow> [] | c # r \<Rightarrow> if c = 0x2A then r else t)
      in case dropWhile is_space t of
           [] \<Rightarrow> None
         | c # r \<Rightarrow> if c = 0x7D then Some r else None)"

text \<open>The alternatives of group 1, in the order of the pattern; an alternative is
  given up when \<^verbatim>\<open>[*]?\s*\}\<close> does not follow it.\<close>

definition environments :: "jsstring list" where
  "environments = [js ''eqnarray'', js ''equation'', js ''align'', js ''gather'',
                   js ''falign'', js ''multiline'', js ''alignat'']"

fun environment_name :: "jsstring list \<Rightarrow> jsstring \<Rightarrow> (jsstring \<times> jsstring) option" where
  "environment_name [] t = None"
| "environment_name (n # ns) t =
     (case strip_prefix n t of
        None \<Rightarrow> environment_name ns t
      | Some r \<Rightarrow>
          (case close_brace r of
             None \<Rightarrow> environment_name ns t
           | Some rest \<Rightarrow> Some (n, rest)))"

text \<open>\<^verbatim>\<open>^\s*\\begin\s*\{\s*(...)[*]?\s*\}\<close>: group 1 and the text after the match.\<close>

definition match_begin :: "jsstring \<Rightarrow> (jsstring \<times> jsstring) option" where
  "match_begin s =
     (case strip_prefix (BSL # js ''begin'') (dropWhile is_space s) of
        None \<Rightarrow> None
      | Some r \<Rightarrow>
          (case dropWhile is_space r of
             [] \<Rightarrow> None
           | c # r \<Rightarrow>
               if c = 0x7B then environment_name environments (dropWhile is_space r)
               else None))"

text \<open>\<^verbatim>\<open>\\end\s*\{[^\}*]+[*]?\s*\}\s*$\<close> matches the whole of a text.\<close>

definition match_end :: "jsstring \<Rightarrow> bool" where
  "match_end t =
     (case strip_prefix (BSL # js ''end'') t of
        None \<Rightarrow> False
      | Some r \<Rightarrow>
          (case dropWhile is_space r of
             [] \<Rightarrow> False
           | c # r \<Rightarrow>
               c = 0x7B \<and>
               (let name = takeWhile (\<lambda>c. c \<noteq> 0x7D \<and> c \<noteq> 0x2A) r
                in name \<noteq> [] \<and>
                   (case close_brace (drop (length name) r) of
                      None \<Rightarrow> False
                    | Some rest \<Rightarrow> dropWhile is_space rest = []))))"

text \<open>Group 2, \<^verbatim>\<open>([\s\S]*)\<close>, is greedy: it ends at the last position from which
  the rest of the pattern matches.\<close>

fun last_end :: "jsstring \<Rightarrow> nat option" where
  "last_end [] = None"
| "last_end (c # cs) =
     (case last_end cs of
        Some p \<Rightarrow> Some (Suc p)
      | None \<Rightarrow> if match_end (c # cs) then Some 0 else None)"

definition exec_environment :: "jsstring \<Rightarrow> (jsstring \<times> jsstring) option" where
  "exec_environment math =
     (case match_begin math of
        None \<Rightarrow> None
      | Some (name, rest) \<Rightarrow>
          (case last_end rest of
             None \<Rightarrow> None
           | Some p \<Rightarrow> Some (name, take p rest)))"

text \<open>\<^verbatim>\<open>str.replace(pattern, replacement)\<close> with a string pattern: the first
  occurrence only.\<close>

fun replace_first :: "jsstring \<Rightarrow> jsstring \<Rightarrow> jsstring \<Rightarrow> jsstring" where
  "replace_first pat rep [] = []"
| "replace_first pat rep (c # cs) =
     (case strip_prefix pat (c # cs) of
        Some rest \<Rightarrow> rep @ rest
      | None \<Rightarrow> c # replace_first pat rep cs)"

definition cleanMathTable :: "jsstring \<Rightarrow> jsstring" where
  "cleanMathTable math = replace_first [0x26] [SP] (replace_first [BSL, BSL] [LF] math)"

text \<open>
  \<^verbatim>\<open>visitTYPEOF=mw:Extension/math\<close>.  Nothing here is inside a \<^verbatim>\<open>try\<close>: an
  exception of \<^verbatim>\<open>JSON.parse\<close> or of a property access leaves the handler.  When
  \<^verbatim>\<open>extsrc\<close> is not a string, the pattern is applied to its text; if that does
  not match, \<^verbatim>\<open>cleanMath\<close> is called on the value itself and raises a TypeError
  (at the latest in \<^verbatim>\<open>subsup\<close>, where \<^verbatim>\<open>s.replace\<close> is not a function).
  \<open>write_math\<close> is the end of the handler,
  \<^verbatim>\<open>this.format.write(cleanMath(math)); if (display) { this.format.lineBreak(); }\<close>.
\<close>

definition write_math :: "jsstring \<Rightarrow> bool \<Rightarrow> visitor \<Rightarrow> error + visitor" where
  "write_math math display v =
     andThen (cleanMath math (world v)) (\<lambda>(text, g).
       (let v = format_write text (v\<lparr> world := g \<rparr>)
        in if display then format_lineBreak v else Inr v))"

definition visitTYPEOF_math :: "env \<Rightarrow> node \<Rightarrow> bool \<Rightarrow> visitor \<Rightarrow> error + visitor" where
  "visitTYPEOF_math e node display v =
     andThen (parse_attribute e (getAttribute node (js ''data-mw''))) (\<lambda>data.
     andThen (get_prop (Some data) (js ''body'')) (\<lambda>body.
     andThen (get_prop body (js ''extsrc'')) (\<lambda>extsrc.
       (let text = (case extsrc of
                      None \<Rightarrow> js ''undefined''
                    | Some (JString s) \<Rightarrow> s
                    | Some j \<Rightarrow> ToString e j);
            source = (case exec_environment text of
                        Some (name, inner) \<Rightarrow>
                          Some (if name = js ''array'' \<or> name = js ''align'' \<or> name = js ''eqnarray''
                                then cleanMathTable inner else inner, True)
                      | None \<Rightarrow>
                          (case extsrc of
                             Some (JString s) \<Rightarrow> Some (s, display)
                           | _ \<Rightarrow> None))
        in case source of
             None \<Rightarrow> Inl TypeError
           | Some (math, display) \<Rightarrow> write_math math display v))))"

section \<open>Lists of terms and definitions\<close>

text \<open>
  The first loop of \<^verbatim>\<open>visitDL\<close>, over the element children, with \<^verbatim>\<open>allMath\<close> so far:
  it stops after the first \<^verbatim>\<open>DT\<close>.  The result is \<^verbatim>\<open>sawDT\<close> and \<^verbatim>\<open>allMath\<close>.
\<close>

definition only_math_child :: "node \<Rightarrow> bool" where
  "only_math_child dd =
     (case element_children dd of
        [math] \<Rightarrow> getAttribute math (js ''typeof'') = Some (js ''mw:Extension/math'')
      | _ \<Rightarrow> False)"

fun dl_scan :: "node list \<Rightarrow> bool \<Rightarrow> bool \<times> bool" where
  "dl_scan [] allMath = (False, allMath)"
| "dl_scan (dd # rest) allMath =
     (let sawDT = (nodeName dd = js ''DT'');
          allMath = (if \<not> only_math_child dd then False else allMath)
      in if sawDT then (True, allMath) else dl_scan rest allMath)"

text \<open>The second loop: the math handler on the first element child of each
  element child, with \<^verbatim>\<open>display\<close> set.\<close>

fun dl_math :: "env \<Rightarrow> node list \<Rightarrow> visitor \<Rightarrow> error + visitor" where
  "dl_math e [] v = Inr v"
| "dl_math e (dd # rest) v =
     andThen (case element_children dd of
                [] \<Rightarrow> Inl TypeError
              | math # _ \<Rightarrow> visitTYPEOF_math e math True v)
       (dl_math e rest)"

definition visitDL ::
  "env \<Rightarrow> node \<Rightarrow> (visitor \<Rightarrow> error + visitor) \<Rightarrow> visitor \<Rightarrow> error + visitor" where
  "visitDL e node vc v =
     (if \<not> first_child e node then Inr v
      else
        (let (sawDT_scan, allMath) = dl_scan (element_children node) True
         in if allMath \<and> \<not> sawDT_scan then dl_math e (element_children node) v
            else
              (let wasListInfo = listInfo v
               in andThen (vc (v\<lparr> listInfo :=
                                 \<lparr> li_type = Some (if sawDT_scan then nodeName node
                                                   else js ''BLOCKQUOTE''),
                                   num = Some 0, depth = depth wasListInfo + 1,
                                   sawDT = False \<rparr> \<rparr>))
                    (\<lambda>v. andThen (if sawDT (listInfo v) then format_dedent v else Inr v)
                           (\<lambda>v. Inr (v\<lparr> listInfo := wasListInfo \<rparr>))))))"

section \<open>Images and containers\<close>

text \<open>A property key or a piece of a string made from an attribute that may be
  \<^verbatim>\<open>null\<close>.\<close>

definition string_of :: "jsstring option \<Rightarrow> jsstring" where
  "string_of a = (case a of None \<Rightarrow> js ''null'' | Some s \<Rightarrow> s)"

text \<open>
  \<^verbatim>\<open>visitMultipleImage\<close>.  \<open>hasParent\<close> says whether \<^verbatim>\<open>node.parentElement\<close> is an
  element.  The loop only calls \<^verbatim>\<open>visitFIGURE\<close>, which does nothing.
\<close>

definition visitMultipleImage :: "env \<Rightarrow> bool \<Rightarrow> node \<Rightarrow> visitor \<Rightarrow> error + visitor" where
  "visitMultipleImage e hasParent node v =
     (let about = getAttribute node (js ''about'');
          v = v\<lparr> templates := insert (string_of about) (templates v) \<rparr>;
          sel = js ''table[about='' @ [0x22] @ string_of about @ [0x22] @ js ''] tr ''
      in if \<not> hasParent then Inl TypeError
         else case selector_error e (sel @ js ''> td > *[typeof='' @ [0x22] @ js ''mw:Image'' @ [0x22] @ js '']'') of
                Some exn \<Rightarrow> Inl exn
              | None \<Rightarrow>
                  (case selector_error e (sel @ js ''+ tr > td > *[class='' @ [0x22] @ js ''thumbcaption'' @ [0x22] @ js '']'') of
                     Some exn \<Rightarrow> Inl exn
                   | None \<Rightarrow> Inr v))"

definition visitDIV ::
  "env \<Rightarrow> bool \<Rightarrow> node \<Rightarrow> (visitor \<Rightarrow> error + visitor) \<Rightarrow> visitor \<Rightarrow> error + visitor" where
  "visitDIV e hasParent node vc v =
     (if isMultipleImageTemplate e node then visitMultipleImage e hasParent node v
      else andThen (format_lineBreak v) (\<lambda>v. andThen (vc v) format_lineBreak))"

section \<open>The methods of the Visitor by name\<close>

text \<open>
  \<^verbatim>\<open>visit\<close> finds a handler with \<^verbatim>\<open>this['visit' + name]\<close>, which answers for every
  property of the prototype whose name starts with \<^verbatim>\<open>visit\<close>.  The table lists them
  all by the rest of their name; besides the handlers for tags it has \<^verbatim>\<open>visit\<close>
  itself (for the empty name), \<^verbatim>\<open>visitChildren\<close>, \<^verbatim>\<open>visitHn\<close>,
  \<^verbatim>\<open>visitMultipleImage\<close> and the handlers for attributes, whose names contain
  \<^verbatim>\<open>=\<close>.
\<close>

datatype handler =
    M_visit | M_visitChildren | M_BODY | M_A | M_P | M_SUB | M_SUP | M_CENTER | M_BR
  | M_Hn "int option" | M_REL_dc_references | M_OL | M_LI | M_DL | M_DT | M_DD
  | M_BLOCKQUOTE | M_REL_mw_referencedBy | M_TYPEOF_references | M_TABLE | M_FIGURE
  | M_TYPEOF_math | M_LANG | M_DIR | M_MultipleImage | M_DIV

definition methods :: "(jsstring \<times> handler) list" where
  "methods =
     [([], M_visit),
      (js ''Children'', M_visitChildren),
      (js ''BODY'', M_BODY),
      (js ''A'', M_A),
      (js ''P'', M_P),
      (js ''SUB'', M_SUB),
      (js ''SUP'', M_SUP),
      (js ''CENTER'', M_CENTER),
      (js ''BR'', M_BR),
      (js ''Hn'', M_Hn None),
      (js ''H1'', M_Hn (Some 1)),
      (js ''H2'', M_Hn (Some 2)),
      (js ''H3'', M_Hn (Some 3)),
      (js ''H4'', M_Hn (Some 4)),
      (js ''H5'', M_Hn (Some 5)),
      (js ''H6'', M_Hn (Some 6)),
      (js ''REL=dc:references'', M_REL_dc_references),
      (js ''UL'', M_OL),
      (js ''OL'', M_OL),
      (js ''LI'', M_LI),
      (js ''DL'', M_DL),
      (js ''DT'', M_DT),
      (js ''DD'', M_DD),
      (js ''BLOCKQUOTE'', M_BLOCKQUOTE),
      (js ''REL=mw:referencedBy'', M_REL_mw_referencedBy),
      (js ''TYPEOF=mw:Extension/references'', M_TYPEOF_references),
      (js ''TABLE'', M_TABLE),
      (js ''FIGURE'', M_FIGURE),
      (js ''TYPEOF=mw:Extension/math'', M_TYPEOF_math),
      (js ''LANG='', M_LANG),
      (js ''DIR='', M_DIR),
      (js ''TYPEOF=mw:Image'', M_FIGURE),
      (js ''TYPEOF=mw:Image/Thumb'', M_FIGURE),
      (js ''MultipleImage'', M_MultipleImage),
      (js ''DIV'', M_DIV)]"

text \<open>The three lookups of \<^verbatim>\<open>visit\<close>, in its order: the \<^verbatim>\<open>typeof\<close> attribute, the
  \<^verbatim>\<open>rel\<close> attribute, the tag name.\<close>

definition typeof_method :: "node \<Rightarrow> handler option" where
  "typeof_method node =
     (case getAttribute node (js ''typeof'') of
        None \<Rightarrow> None
      | Some typeo \<Rightarrow> map_of methods (js ''TYPEOF='' @ typeo))"

definition rel_method :: "node \<Rightarrow> handler option" where
  "rel_method node =
     (case getAttribute node (js ''rel'') of
        None \<Rightarrow> None
      | Some rel \<Rightarrow> map_of methods (js ''REL='' @ rel))"

definition tag_method :: "node \<Rightarrow> handler option" where
  "tag_method node = map_of methods (nodeName node)"

definition find_method :: "node \<Rightarrow> handler option" where
  "find_method node =
     (case typeof_method node of
        Some m \<Rightarrow> Some m
      | None \<Rightarrow> (case rel_method node of Some m \<Rightarrow> Some m | None \<Rightarrow> tag_method node))"

text \<open>
  The call of the method found.  \<open>vc\<close> is \<^verbatim>\<open>this.visitChildren(node)\<close> and \<open>vrefs\<close> is
  the loop of \<^verbatim>\<open>visitTYPEOF=mw:Extension/references\<close>, both defined with \<^verbatim>\<open>visit\<close>
  below.  Three methods call \<^verbatim>\<open>this.visit(node)\<close> again in a state in which the
  same method is found again: \<^verbatim>\<open>visit\<close> itself, and \<^verbatim>\<open>visitLANG=\<close> and
  \<^verbatim>\<open>visitDIR=\<close> when they are found by the tag name (the element then has no
  \<^verbatim>\<open>lang\<close> or \<^verbatim>\<open>dir\<close> attribute that differs from the current one).  The recursion
  has no end and the engine raises a RangeError, unless the language lookup raises
  first.
\<close>

definition call_method ::
  "env \<Rightarrow> bool \<Rightarrow> handler \<Rightarrow> node \<Rightarrow> (visitor \<Rightarrow> error + visitor) \<Rightarrow>
   (visitor \<Rightarrow> error + visitor) \<Rightarrow> visitor \<Rightarrow> error + visitor" where
  "call_method e hasParent m node vc vrefs v =
     (case m of
        M_visit \<Rightarrow> Inl RangeError
      | M_visitChildren \<Rightarrow> vc v
      | M_BODY \<Rightarrow> vc v
      | M_A \<Rightarrow> vc v
      | M_P \<Rightarrow> visitP vc v
      | M_SUB \<Rightarrow> visitSUB vc v
      | M_SUP \<Rightarrow> visitSUP node vc v
      | M_CENTER \<Rightarrow> visitCENTER vc v
      | M_BR \<Rightarrow> format_lineBreak v
      | M_Hn n \<Rightarrow> visitHn n vc v
      | M_REL_dc_references \<Rightarrow> visitREL_dc_references node vc v
      | M_OL \<Rightarrow> visitOL e node vc v
      | M_LI \<Rightarrow> visitLI e vc v
      | M_DL \<Rightarrow> visitDL e node vc v
      | M_DT \<Rightarrow> visitDT e vc v
      | M_DD \<Rightarrow> visitDD e vc v
      | M_BLOCKQUOTE \<Rightarrow> visitBLOCKQUOTE e vc v
      | M_REL_mw_referencedBy \<Rightarrow> Inr v
      | M_TYPEOF_references \<Rightarrow> (if noRefs (voptions v) then Inr v else vrefs v)
      | M_TABLE \<Rightarrow> Inr v
      | M_FIGURE \<Rightarrow> Inr v
      | M_TYPEOF_math \<Rightarrow> visitTYPEOF_math e node False v
      | M_LANG \<Rightarrow>
          (case Polyglossia_lookup e (getAttribute node (js ''lang'')) of
             Inl exn \<Rightarrow> Inl exn
           | Inr d \<Rightarrow> Inl RangeError)
      | M_DIR \<Rightarrow> Inl RangeError
      | M_MultipleImage \<Rightarrow> visitMultipleImage e hasParent node v
      | M_DIV \<Rightarrow> visitDIV e hasParent node vc v)"


section \<open>The generic node visitor\<close>

text \<open>\<^verbatim>\<open>node.getAttribute('lang') || this.currentLanguage\<close>.\<close>

definition declared_lang :: "node \<Rightarrow> visitor \<Rightarrow> jsstring option" where
  "declared_lang node v =
     (if truthy (getAttribute node (js ''lang'')) then getAttribute node (js ''lang'')
      else currentLanguage v)"

text \<open>\<^verbatim>\<open>node.getAttribute('dir') || this.currentDirectionality\<close>, with \<^verbatim>\<open>auto\<close>
  replaced by the current direction.\<close>

definition declared_dir :: "node \<Rightarrow> visitor \<Rightarrow> jsstring option" where
  "declared_dir node v =
     (let d = (if truthy (getAttribute node (js ''dir'')) then getAttribute node (js ''dir'')
               else currentDirectionality v)
      in if d = Some (js ''auto'') then currentDirectionality v else d)"

text \<open>
  \<^verbatim>\<open>visitLANG=\<close> and \<^verbatim>\<open>visitDIR=\<close>.  \<open>visit_node\<close> is \<^verbatim>\<open>this.visit(node)\<close>, the visit
  of the same node in the changed state.
\<close>

definition visitLANG ::
  "env \<Rightarrow> node \<Rightarrow> (visitor \<Rightarrow> error + visitor) \<Rightarrow> visitor \<Rightarrow> error + visitor" where
  "visitLANG e node visit_node v =
     (let savedLanguage = currentLanguage v;
          savedDirectionality = currentDirectionality v;
          lang = getAttribute node (js ''lang'')
      in case Polyglossia_lookup e lang of
           Inl exn \<Rightarrow> Inl exn
         | Inr poly_dir \<Rightarrow>
             andThen (visit_node (v\<lparr> currentLanguage := lang,
                                      currentDirectionality := poly_dir \<rparr>))
               (\<lambda>r. Inr (r\<lparr> currentLanguage := savedLanguage,
                               currentDirectionality := savedDirectionality \<rparr>)))"

definition visitDIR ::
  "node \<Rightarrow> (visitor \<Rightarrow> error + visitor) \<Rightarrow> visitor \<Rightarrow> error + visitor" where
  "visitDIR node visit_node v =
     (let savedDirectionality = currentDirectionality v;
          dir = getAttribute node (js ''dir'');
          v = v\<lparr> world := (world v)\<lparr> console := console (world v) @
                   [NonStandardDir (currentLanguage v) (currentDirectionality v) dir] \<rparr> \<rparr>
      in andThen (visit_node (v\<lparr> currentDirectionality := dir \<rparr>))
           (\<lambda>r. Inr (r\<lparr> currentDirectionality := savedDirectionality \<rparr>)))"

lemma visitLANG_cong [fundef_cong]:
  assumes "v = v'"
    and "\<And>w. currentLanguage w = getAttribute node (js ''lang'') \<Longrightarrow> f w = g w"
  shows "visitLANG e node f v = visitLANG e node g v'"
  using assms by (auto simp: visitLANG_def Let_def split: sum.splits)

lemma visitDIR_cong [fundef_cong]:
  assumes "v = v'"
    and "\<And>w. currentLanguage w = currentLanguage v' \<Longrightarrow>
              currentDirectionality w = getAttribute node (js ''dir'') \<Longrightarrow> f w = g w"
  shows "visitDIR node f v = visitDIR node g v'"
  using assms by (auto simp: visitDIR_def Let_def)

text \<open>The measure of the recursion: the size of the tree, and for one node the
  number of switches (language, then direction) that \<^verbatim>\<open>visit\<close> still has to make
  before it finds a method.\<close>

fun node_weight :: "node \<Rightarrow> nat" where
  "node_weight (Element name attrs cs) = 2 + sum_list (map (\<lambda>c. Suc (node_weight c)) cs)"
| "node_weight (Text d) = 1"
| "node_weight Other = 1"

definition nodes_weight :: "node list \<Rightarrow> nat" where
  "nodes_weight cs = sum_list (map (\<lambda>c. Suc (node_weight c)) cs)"

definition switches :: "node \<Rightarrow> visitor \<Rightarrow> nat" where
  "switches node v =
     (if declared_lang node v \<noteq> currentLanguage v then 2
      else if declared_dir node v \<noteq> currentDirectionality v then 1
      else 0)"

lemma switches_after_lang:
  assumes "declared_lang node v \<noteq> currentLanguage v"
    and "currentLanguage w = getAttribute node (js ''lang'')"
  shows "switches node w \<le> 1"
proof -
  from assms(1) have "truthy (getAttribute node (js ''lang''))"
    by (auto simp: declared_lang_def split: if_splits)
  with assms(2) have "declared_lang node w = currentLanguage w"
    by (simp add: declared_lang_def)
  then show ?thesis by (simp add: switches_def)
qed

lemma switches_after_dir:
  assumes "declared_lang node v = currentLanguage v"
    and "declared_dir node v \<noteq> currentDirectionality v"
    and "currentLanguage w = currentLanguage v"
    and "currentDirectionality w = getAttribute node (js ''dir'')"
  shows "switches node w = 0"
proof -
  from assms(2) have "truthy (getAttribute node (js ''dir''))"
    and "getAttribute node (js ''dir'') \<noteq> Some (js ''auto'')"
    by (auto simp: declared_dir_def Let_def split: if_splits)
  with assms(4) have "declared_dir node w = currentDirectionality w"
    by (simp add: declared_dir_def Let_def)
  moreover from assms(1,3) have "declared_lang node w = currentLanguage w"
    by (simp add: declared_lang_def split: if_splits)
  ultimately show ?thesis by (simp add: switches_def)
qed

lemma nodes_weight_childNodes: "nodes_weight (childNodes n) < node_weight n"
  by (cases n) (simp_all add: nodes_weight_def)

text \<open>
  \<^verbatim>\<open>visit\<close>, \<^verbatim>\<open>visitChildren\<close> and the loop of
  \<^verbatim>\<open>visitTYPEOF=mw:Extension/references\<close> (\<open>i\<close> is its index).  \<open>hasParent\<close> says
  whether the node has a parent element; a child has one.
\<close>

function visit :: "env \<Rightarrow> bool \<Rightarrow> node \<Rightarrow> visitor \<Rightarrow> error + visitor"
  and visitChildren :: "env \<Rightarrow> node list \<Rightarrow> visitor \<Rightarrow> error + visitor"
  and visitReferences :: "env \<Rightarrow> int \<Rightarrow> node list \<Rightarrow> visitor \<Rightarrow> error + visitor"
where
  "visit e hasParent (Text d) v = Inr (visit_text d v)"
| "visit e hasParent Other v = Inr v"
| "visit e hasParent (Element name attrs cs) v =
     (let node = Element name attrs cs
      in if isHidden e node then Inr v
         else if declared_lang node v \<noteq> currentLanguage v then
           visitLANG e node (\<lambda>v. visit e hasParent node v)
             (v\<lparr> usedLanguages := insert (declared_lang node v) (usedLanguages v) \<rparr>)
         else if declared_dir node v \<noteq> currentDirectionality v then
           visitDIR node (\<lambda>v. visit e hasParent node v) v
         else
           (case find_method node of
              Some m \<Rightarrow>
                call_method e hasParent m node
                  (\<lambda>v. visitChildren e cs v) (\<lambda>v. visitReferences e 0 cs v) v
            | None \<Rightarrow> visitChildren e cs v))"
| "visitChildren e [] v = Inr v"
| "visitChildren e (c # cs) v = andThen (visit e True c v) (\<lambda>v. visitChildren e cs v)"
| "visitReferences e i [] v = Inr v"
| "visitReferences e i (ref # refs) v =
     (let name = textEscape ([0x5B] @ number_text (Some (i + 1)) @ [0x5D])
      in andThen (format_indent e (Some name) v) (\<lambda>v.
         andThen (visitChildren e (childNodes ref) v) (\<lambda>v.
         andThen (format_dedent v) (\<lambda>v. visitReferences e (i + 1) refs v))))"
  by pat_completeness auto
termination
proof (relation "inv_image (less_than <*lex*> less_than)
      (\<lambda>x. case x of
         Inl (e, hasParent, n, v) \<Rightarrow> (node_weight n, switches n v)
       | Inr (Inl (e, cs, v)) \<Rightarrow> (nodes_weight cs, 0)
       | Inr (Inr (e, i, refs, v)) \<Rightarrow> (nodes_weight refs, 0))", goal_cases)
  case 1
  show ?case by (intro wf_inv_image wf_lex_prod wf_less_than)
next
  case (2 e hasParent name attrs cs v x w)
  then have "switches x w \<le> 1" by (intro switches_after_lang[of x v]) simp_all
  moreover have "switches x v = 2" using 2 by (simp add: switches_def)
  ultimately show ?case using 2 by simp
next
  case (3 e hasParent name attrs cs v x w)
  then have "switches x w = 0" by (intro switches_after_dir[of x v]) simp_all
  moreover have "switches x v = 1" using 3 by (simp add: switches_def)
  ultimately show ?case using 3 by simp
next
  case 4 then show ?case by (simp add: nodes_weight_def)
next
  case 5 then show ?case by (simp add: nodes_weight_def)
next
  case 6 then show ?case by (simp add: nodes_weight_def)
next
  case 7 then show ?case by (simp add: nodes_weight_def)
next
  case 8 then show ?case by (simp add: nodes_weight_def)
next
  case (9 e i ref refs v x xa)
  show ?case using nodes_weight_childNodes[of ref] by (simp add: nodes_weight_def)
next
  case 10 then show ?case by (simp add: nodes_weight_def)
qed

declare visit.simps(3) [simp del]


section \<open>A concrete environment and concrete documents\<close>

text \<open>
  Stand-ins for the outside, for running the visitor on concrete documents: no
  wrapping; a \<^verbatim>\<open>JSON.parse\<close> that reads the one well-formed payload used below,
  \<^verbatim>\<open>{"body":{"extsrc":"x^2"}}\<close>, and rejects every other text, as \<^verbatim>\<open>JSON.parse\<close>
  rejects the text \<^verbatim>\<open>not json\<close>; every language written left to right; the first
  child as \<^verbatim>\<open>DomUtil.first_child\<close>; every selector accepted.
\<close>

definition demo_payload :: jsstring where
  "demo_payload =
     [0x7B, 0x22] @ js ''body'' @ [0x22, 0x3A, 0x7B, 0x22] @ js ''extsrc'' @
     [0x22, 0x3A, 0x22] @ js ''x^2'' @ [0x22, 0x7D, 0x7D]"

definition demo_env :: env where
  "demo_env =
     \<lparr> linewrap = plain_linewrap,
       JSON_parse = (\<lambda>s. if s = demo_payload
                          then Some (JObject [(js ''body'',
                                  JObject [(js ''extsrc'', JString (js ''x^2''))])])
                          else None),
       ToString = (\<lambda>j. []),
       Polyglossia_lookup = (\<lambda>l. Inr (Some (js ''ltr''))),
       first_child = (\<lambda>n. childNodes n \<noteq> []),
       selector_error = (\<lambda>s. None) \<rparr>"

definition demo_voptions :: voptions where
  "demo_voptions =
     \<lparr> noRefs = False, hasChapters = False, singleItem = True, lang = None, dir = None \<rparr>"

text \<open>A new Visitor on a new Formatter in no-wrap mode, in a fresh process.\<close>

definition demo_visitor :: visitor where
  "demo_visitor =
     Visitor (Layout (Formatter plain_linewrap nowrap_options)) demo_voptions globals0"

text \<open>What the sink has written to the output stream, and the depth of the
  Formatter's stack of states (a collector has neither).\<close>

definition sink_emitted :: "sink \<Rightarrow> jsstring" where
  "sink_emitted s = (case s of Layout f \<Rightarrow> emitted f | Collect c \<Rightarrow> [])"

definition indent_depth :: "sink \<Rightarrow> nat" where
  "indent_depth s = (case s of Layout f \<Rightarrow> length (stateStack f) | Collect c \<Rightarrow> 0)"

text \<open>\<^verbatim>\<open><ol><li>a</li><li>b</li><li>c</li><li>d</li></ol>\<close>\<close>

definition demo_li :: "string \<Rightarrow> node" where
  "demo_li s = Element (js ''LI'') [] [Text (js s)]"

definition demo_ol :: node where
  "demo_ol = Element (js ''OL'') [] [demo_li ''a'', demo_li ''b'', demo_li ''c'', demo_li ''d'']"

text \<open>\<^verbatim>\<open><span typeof="mw:Extension/math" data-mw="not json"></span>\<close>\<close>

definition demo_bad_math :: node where
  "demo_bad_math =
     Element (js ''SPAN'')
       [(js ''typeof'', js ''mw:Extension/math''), (js ''data-mw'', js ''not json'')] []"

text \<open>\<^verbatim>\<open><div typeof="mw:Transclusion" data-mw="not json">text</div>\<close>\<close>

definition demo_bad_template :: node where
  "demo_bad_template =
     Element (js ''DIV'')
       [(js ''typeof'', js ''mw:Transclusion''), (js ''data-mw'', js ''not json'')]
       [Text (js ''text'')]"

text \<open>\<^verbatim>\<open><sup class="Template-Fact">citation needed</sup>\<close>, and a visitor with the
  option \<^verbatim>\<open>noRefs\<close>.\<close>

definition demo_fact :: node where
  "demo_fact =
     Element (js ''SUP'') [(js ''class'', js ''Template-Fact'')] [Text (js ''citation needed'')]"

definition demo_visitor_noRefs :: visitor where
  "demo_visitor_noRefs = demo_visitor\<lparr> voptions := demo_voptions\<lparr> noRefs := True \<rparr> \<rparr>"

text \<open>\<^verbatim>\<open><dt>term</dt>\<close>\<close>

definition demo_dt :: node where
  "demo_dt = Element (js ''DT'') [] [Text (js ''term'')]"

section \<open>What a visit leaves unchanged\<close>

text \<open>
  \<open>lang_frame v v'\<close>: from \<open>v\<close> to \<open>v'\<close> the current language, the current
  direction, the language of the table of contents and the options are the same,
  and \<open>usedLanguages\<close> has only grown.
\<close>

definition lang_frame :: "visitor \<Rightarrow> visitor \<Rightarrow> bool" where
  "lang_frame v v' =
     (currentLanguage v' = currentLanguage v \<and>
      currentDirectionality v' = currentDirectionality v \<and>
      tocLanguage v' = tocLanguage v \<and>
      voptions v' = voptions v \<and>
      usedLanguages v \<subseteq> usedLanguages v')"

definition keeps_lang :: "(visitor \<Rightarrow> error + visitor) \<Rightarrow> bool" where
  "keeps_lang f = (\<forall>v v'. f v = Inr v' \<longrightarrow> lang_frame v v')"

section \<open>The classification of an element, in the words of the specification\<close>

text \<open>
  The seven classes of an element, in their order of priority: hidden and not a
  multiple-image template; a \<^verbatim>\<open>lang\<close> attribute that is not empty and differs from
  the current language; a \<^verbatim>\<open>dir\<close> attribute that is not empty, not \<^verbatim>\<open>auto\<close> and
  differs from the current direction; a method for the \<^verbatim>\<open>typeof\<close> attribute; a
  method for the \<^verbatim>\<open>rel\<close> attribute; a method for the tag name; none of these.
\<close>

datatype classification =
    Skip | Language | Direction | ByTypeof handler | ByRel handler | ByTag handler | Flatten

definition hidden_content :: "node \<Rightarrow> bool" where
  "hidden_content node =
     (classList_contains node (js ''noprint'') \<or>
      style_display_none (case getAttribute node (js ''style'') of None \<Rightarrow> [] | Some s \<Rightarrow> s) \<or>
      list_ex (classList_contains node)
        [js ''infobox'', js ''navbox'', js ''rellink'', js ''dablink'',
         js ''toplink'', js ''metadata''])"

definition classify :: "env \<Rightarrow> node \<Rightarrow> visitor \<Rightarrow> classification" where
  "classify e node v =
     (if hidden_content node \<and> \<not> isMultipleImageTemplate e node then Skip
      else if truthy (getAttribute node (js ''lang'')) \<and>
              getAttribute node (js ''lang'') \<noteq> currentLanguage v then Language
      else if truthy (getAttribute node (js ''dir'')) \<and>
              getAttribute node (js ''dir'') \<noteq> Some (js ''auto'') \<and>
              getAttribute node (js ''dir'') \<noteq> currentDirectionality v then Direction
      else case typeof_method node of
             Some m \<Rightarrow> ByTypeof m
           | None \<Rightarrow>
               (case rel_method node of
                  Some m \<Rightarrow> ByRel m
                | None \<Rightarrow>
                    (case tag_method node of
                       Some m \<Rightarrow> ByTag m
                     | None \<Rightarrow> Flatten)))"

text \<open>\<^verbatim>\<open><span lang="fr" dir="rtl">bonjour</span>\<close>,
  \<^verbatim>\<open><span class="noprint">hidden</span>\<close> and \<^verbatim>\<open><span><i>un</i>known</span>\<close>\<close>

definition demo_span :: node where
  "demo_span =
     Element (js ''SPAN'') [(js ''lang'', js ''fr''), (js ''dir'', js ''rtl'')]
       [Text (js ''bonjour'')]"

definition demo_hidden :: node where
  "demo_hidden = Element (js ''SPAN'') [(js ''class'', js ''noprint'')] [Text (js ''hidden'')]"

definition demo_unknown :: node where
  "demo_unknown =
     Element (js ''SPAN'') [] [Element (js ''I'') [] [Text (js ''un'')], Text (js ''known'')]"

text \<open>The fragments that the sink holds for the line that is not yet written.\<close>

definition sink_buffer :: "sink \<Rightarrow> jsstring list" where
  "sink_buffer s = (case s of Layout f \<Rightarrow> buffer f | Collect c \<Rightarrow> c_b c)"

section \<open>Subscripts and superscripts, in the words of the specification\<close>

text \<open>
  The text that a subscript or superscript writes for its flattened text
  \<open>contents\<close>: every character replaced by its entry in the table when the text is
  not empty and all its characters are keys of the table; otherwise the same
  characters, a smart quote replaced by the plain one.
\<close>

definition script_char :: "(jschar \<times> jschar) list \<Rightarrow> jschar \<Rightarrow> jschar" where
  "script_char m c = (case map_of m c of Some d \<Rightarrow> d | None \<Rightarrow> c)"

definition plain_quote :: "jschar \<Rightarrow> jschar" where
  "plain_quote c = plain_single_quote (plain_double_quote c)"

definition script_text :: "(jschar \<times> jschar) list \<Rightarrow> jsstring \<Rightarrow> jsstring" where
  "script_text m contents =
     (if contents \<noteq> [] \<and> list_all (\<lambda>c. map_of m c \<noteq> None) contents
      then map (script_char m) contents
      else map plain_quote contents)"

text \<open>The collector that \<^verbatim>\<open>collect\<close> installs, and the flattened text it holds when
  the children have been visited.\<close>

definition new_collector :: sink where
  "new_collector = Collect \<lparr> c_newLine = True, c_newPara = True, c_b = [] \<rparr>"

definition flattened :: "visitor \<Rightarrow> jsstring" where
  "flattened r = collapse_space (concat (collected (format r)))"

text \<open>\<^verbatim>\<open><sub>2</sub>\<close> and \<^verbatim>\<open><sup>n-1 \<close>\<open>\<dots>\<close>\<^verbatim>\<open></sup>\<close> with a right double quotation mark
  after \<^verbatim>\<open>n-1\<close>.\<close>

definition demo_sub :: node where
  "demo_sub = Element (js ''SUB'') [] [Text (js ''2'')]"

definition demo_sup :: node where
  "demo_sup = Element (js ''SUP'') [] [Text (js ''n-1'' @ [0x201D])]"

section \<open>Terms and definitions inside their lists\<close>

text \<open>The method that \<^verbatim>\<open>visit\<close> finds for a node.\<close>

definition handled_by :: "node \<Rightarrow> handler \<Rightarrow> bool" where
  "handled_by node m = (find_method node = Some m)"

text \<open>
  \<open>well_nested node\<close>: the node is not handled by \<^verbatim>\<open>visitDT\<close> or \<^verbatim>\<open>visitDD\<close>, and
  every element below it that is, is a child of an element handled by \<^verbatim>\<open>visitDL\<close>.
  \<open>list_items\<close> are the children of such a list: a term or a definition whose own
  children are well nested, or any other well-nested node.  The handler of a
  references extension visits the children of its children (\<open>reference_items\<close>),
  not the children themselves.
\<close>

fun well_nested :: "node \<Rightarrow> bool"
  and well_nested_all :: "node list \<Rightarrow> bool"
  and list_items :: "node list \<Rightarrow> bool"
  and reference_items :: "node list \<Rightarrow> bool"
where
  "well_nested (Text d) = True"
| "well_nested Other = True"
| "well_nested (Element name attrs cs) =
     (\<not> handled_by (Element name attrs cs) M_DT \<and>
      \<not> handled_by (Element name attrs cs) M_DD \<and>
      (if handled_by (Element name attrs cs) M_DL then list_items cs
       else if handled_by (Element name attrs cs) M_TYPEOF_references then reference_items cs
       else well_nested_all cs))"
| "well_nested_all [] = True"
| "well_nested_all (c # cs) = (well_nested c \<and> well_nested_all cs)"
| "list_items [] = True"
| "list_items (Text d # cs) = list_items cs"
| "list_items (Other # cs) = list_items cs"
| "list_items (Element name attrs ds # cs) =
     ((if handled_by (Element name attrs ds) M_DT \<or> handled_by (Element name attrs ds) M_DD
       then well_nested_all ds
       else well_nested (Element name attrs ds)) \<and>
      list_items cs)"
| "reference_items [] = True"
| "reference_items (Text d # cs) = reference_items cs"
| "reference_items (Other # cs) = reference_items cs"
| "reference_items (Element name attrs ds # cs) = (well_nested_all ds \<and> reference_items cs)"

text \<open>
  What a visit of a well-nested node keeps: the depth of the stack, the kind of
  the sink and \<^verbatim>\<open>this.listInfo\<close>.
\<close>

definition is_layout :: "sink \<Rightarrow> bool" where
  "is_layout s = (case s of Layout f \<Rightarrow> True | Collect c \<Rightarrow> False)"

definition balanced :: "visitor \<Rightarrow> visitor \<Rightarrow> bool" where
  "balanced v v' =
     (indent_depth (format v') = indent_depth (format v) \<and>
      is_layout (format v') = is_layout (format v) \<and>
      listInfo v' = listInfo v)"

text \<open>
  What a term or a definition keeps.  \<open>pending\<close> counts the state that the last term
  or definition has left on the stack of the Formatter for the definitions that
  follow, of which \<^verbatim>\<open>sawDT\<close> is the record; the depth without it stays the same.
\<close>

definition pending :: "visitor \<Rightarrow> nat" where
  "pending v = (if sawDT (listInfo v) \<and> is_layout (format v) then 1 else 0)"

definition item_step :: "visitor \<Rightarrow> visitor \<Rightarrow> bool" where
  "item_step v v' =
     (is_layout (format v') = is_layout (format v) \<and>
      (pending v \<le> indent_depth (format v) \<longrightarrow>
         pending v' \<le> indent_depth (format v') \<and>
         indent_depth (format v') + pending v = indent_depth (format v) + pending v'))"

definition keeps_balance :: "(visitor \<Rightarrow> error + visitor) \<Rightarrow> bool" where
  "keeps_balance f = (\<forall>v v'. f v = Inr v' \<longrightarrow> balanced v v')"

definition keeps_items :: "(visitor \<Rightarrow> error + visitor) \<Rightarrow> bool" where
  "keeps_items f = (\<forall>v v'. f v = Inr v' \<longrightarrow> item_step v v')"

text \<open>\<^verbatim>\<open><dl><dt>term</dt><dd>one</dd></dl>\<close>\<close>

definition demo_dd :: node where
  "demo_dd = Element (js ''DD'') [] [Text (js ''one'')]"

definition demo_dl :: node where
  "demo_dl = Element (js ''DL'') [] [demo_dt, demo_dd]"

section \<open>Properties of the text normalizer\<close>

lemma replace_crlf_no_cr: "CR \<notin> set (replace_crlf s)"
  by (induction s rule: replace_crlf.induct) auto

lemma replace_crlf_id: "CR \<notin> set s \<Longrightarrow> replace_crlf s = s"
  by (induction s rule: replace_crlf.induct) auto

lemma compress_newlines_set: "set (compress_newlines s) \<subseteq> set s"
proof (induction s rule: compress_newlines.induct)
  case 1
  then show ?case by simp
next
  case (2 c cs)
  have "set (dropWhile (\<lambda>d. d = LF) cs) \<subseteq> set cs"
    by (rule set_dropWhileD[THEN subsetI]) 
  with 2 show ?case by auto
qed

lemma compress_newlines_hd:
  "compress_newlines s \<noteq> [] \<Longrightarrow> hd (compress_newlines s) = hd s"
  by (cases s) auto

lemma compress_newlines_Nil: "compress_newlines s = [] \<longleftrightarrow> s = []"
  by (cases s) auto

lemma has_newline_run_Cons:
  "has_newline_run (c # s) \<longleftrightarrow> (c = LF \<and> s \<noteq> [] \<and> hd s = LF) \<or> has_newline_run s"
  by (cases s) auto

lemma compress_newlines_no_run: "\<not> has_newline_run (compress_newlines s)"
proof (induction s rule: compress_newlines.induct)
  case 1
  then show ?case by simp
next
  case (2 c cs)
  show ?case
  proof (cases "c = LF")
    case True
    let ?r = "dropWhile (\<lambda>d. d = LF) cs"
    have "?r \<noteq> [] \<Longrightarrow> hd ?r \<noteq> LF"
      using hd_dropWhile[of "\<lambda>d. d = LF" cs] by simp
    then have "compress_newlines ?r \<noteq> [] \<Longrightarrow> hd (compress_newlines ?r) \<noteq> LF"
      by (simp add: compress_newlines_hd compress_newlines_Nil)
    with 2 True show ?thesis
      by (auto simp: has_newline_run_Cons)
  next
    case False
    with 2 show ?thesis by (simp add: has_newline_run_Cons)
  qed
qed

lemma compress_newlines_id: "\<not> has_newline_run s \<Longrightarrow> compress_newlines s = s"
proof (induction s rule: has_newline_run.induct)
  case (3 c d cs)
  then show ?case by (cases "d = LF") auto
qed auto

lemma has_newline_run_dropWhile:
  "\<not> has_newline_run s \<Longrightarrow> \<not> has_newline_run (dropWhile P s)"
  by (induction s) (auto simp: has_newline_run_Cons)

lemma has_newline_run_butlast:
  "\<not> has_newline_run s \<Longrightarrow> \<not> has_newline_run (butlast s)"
  by (induction s rule: has_newline_run.induct) (auto split: if_splits)

lemma no_run_last_butlast:
  "\<not> has_newline_run s \<Longrightarrow> s \<noteq> [] \<Longrightarrow> last s = LF \<Longrightarrow> butlast s \<noteq> [] \<Longrightarrow>
   last (butlast s) \<noteq> LF"
  by (induction s rule: has_newline_run.induct) (auto split: if_splits)

lemma plain_quotes_LF [simp]:
  "plain_single_quote (plain_double_quote c) = LF \<longleftrightarrow> c = LF"
  by (simp add: plain_single_quote_def plain_double_quote_def)

lemma plain_quotes_not_smart [simp]:
  "\<not> is_smart_quote (plain_single_quote (plain_double_quote c))"
  by (simp add: plain_single_quote_def plain_double_quote_def is_smart_quote_def)

lemma plain_quotes_id:
  "\<not> is_smart_quote c \<Longrightarrow> plain_single_quote (plain_double_quote c) = c"
  by (simp add: plain_single_quote_def plain_double_quote_def is_smart_quote_def)

lemma has_newline_run_map:
  "(\<And>c. f c = LF \<longleftrightarrow> c = LF) \<Longrightarrow> has_newline_run (map f s) = has_newline_run s"
  by (induction s rule: has_newline_run.induct) auto

lemma textEscape_strip:
  "textEscape s = map (\<lambda>c. plain_single_quote (plain_double_quote c)) (strip_newlines s)"
  by (simp add: textEscape_def strip_newlines_def Let_def)

lemma set_trim_trailing: "set (trim_trailing_newline s) \<subseteq> set s"
  by (auto simp: trim_trailing_newline_def dest: in_set_butlastD)

lemma set_trim_leading: "set (trim_leading_newlines s) \<subseteq> set s"
  by (auto simp: trim_leading_newlines_def dest: set_dropWhileD)

lemma strip_newlines_no_cr: "CR \<notin> set (strip_newlines s)"
proof -
  have "set (strip_newlines s) \<subseteq> set (replace_crlf s)"
    unfolding strip_newlines_def
    using set_trim_trailing set_trim_leading compress_newlines_set by blast
  then show ?thesis using replace_crlf_no_cr by blast
qed

lemma strip_newlines_no_run: "\<not> has_newline_run (strip_newlines s)"
  unfolding strip_newlines_def trim_trailing_newline_def trim_leading_newlines_def
  by (simp add: compress_newlines_no_run has_newline_run_dropWhile has_newline_run_butlast)

lemma hd_butlast: "butlast s \<noteq> [] \<Longrightarrow> hd (butlast s) = hd s"
  by (cases s) (auto split: if_splits)

lemma strip_newlines_ends:
  assumes "strip_newlines s \<noteq> []"
  shows "hd (strip_newlines s) \<noteq> LF" and "last (strip_newlines s) \<noteq> LF"
proof -
  let ?t = "trim_leading_newlines (compress_newlines (replace_crlf s))"
  have run: "\<not> has_newline_run ?t"
    by (simp add: trim_leading_newlines_def compress_newlines_no_run has_newline_run_dropWhile)
  have ne: "?t \<noteq> []"
    using assms by (auto simp: strip_newlines_def trim_trailing_newline_def split: if_splits)
  have hd: "hd ?t \<noteq> LF"
    using ne hd_dropWhile[of "\<lambda>c. c = LF"] by (simp add: trim_leading_newlines_def)
  show "hd (strip_newlines s) \<noteq> LF"
    using assms hd by (auto simp: strip_newlines_def trim_trailing_newline_def hd_butlast
        split: if_splits)
  show "last (strip_newlines s) \<noteq> LF"
    using assms run ne no_run_last_butlast[of ?t]
    by (auto simp: strip_newlines_def trim_trailing_newline_def split: if_splits)
qed

lemma textEscape_normalized: "normalized (textEscape s)"
proof -
  let ?q = "\<lambda>c. plain_single_quote (plain_double_quote c)"
  have "CR \<notin> set (map ?q (strip_newlines s))"
  proof
    assume "CR \<in> set (map ?q (strip_newlines s))"
    then obtain c where c: "c \<in> set (strip_newlines s)" "CR = ?q c"
      unfolding set_map image_iff by blast
    from c(2) have "c = CR"
      by (simp add: plain_single_quote_def plain_double_quote_def split: if_splits)
    with c(1) show False using strip_newlines_no_cr[of s] by blast
  qed
  moreover have "\<not> has_newline_run (map ?q (strip_newlines s))"
    by (simp add: has_newline_run_map strip_newlines_no_run)
  moreover have "strip_newlines s \<noteq> [] \<Longrightarrow>
      hd (map ?q (strip_newlines s)) \<noteq> LF \<and> last (map ?q (strip_newlines s)) \<noteq> LF"
    using strip_newlines_ends[of s] by (simp add: hd_map last_map)
  ultimately show ?thesis
    by (simp add: normalized_def textEscape_strip)
qed

lemma textEscape_fixes_normalized:
  assumes "normalized s"
  shows "textEscape s = s"
proof -
  from assms have "replace_crlf s = s"
    by (simp add: normalized_def replace_crlf_id)
  moreover from assms have "compress_newlines s = s"
    by (simp add: normalized_def compress_newlines_id)
  moreover from assms have "trim_leading_newlines s = s"
    by (cases s) (auto simp: normalized_def trim_leading_newlines_def)
  moreover from assms have "trim_trailing_newline s = s"
    by (auto simp: normalized_def trim_trailing_newline_def)
  ultimately have "strip_newlines s = s"
    by (simp add: strip_newlines_def)
  moreover from assms have "map (\<lambda>c. plain_single_quote (plain_double_quote c)) s = s"
    by (simp add: normalized_def plain_quotes_id map_idI)
  ultimately show ?thesis
    by (simp add: textEscape_strip)
qed

text \<open>
  Claim C10.  \<open>textEscape\<close> is idempotent: its output has no carriage return, no run of
  consecutive newlines, no newline at either end and no smart quote (it is
  \<open>normalized\<close>), and on such a string every pass of \<open>textEscape\<close> changes nothing.
\<close>

theorem textEscape_idempotent:
  "textEscape (textEscape s) = textEscape s \<and> normalized (textEscape s)"
  using textEscape_fixes_normalized[OF textEscape_normalized] textEscape_normalized
  by blast

theorem textEscape_idempotent_witness:
  "textEscape (textEscape [0x0D, 0x0A, 0x0A, 0x201C, 0x61, 0x2019, 0x0A, 0x0D]) = [0x22, 0x61, 0x27]
   \<and> normalized [0x22, 0x61, 0x27]"
proof -
  have "textEscape [0x0D, 0x0A, 0x0A, 0x201C, 0x61, 0x2019, 0x0A, 0x0D] = [0x22, 0x61, 0x27]"
    by (simp add: textEscape_def trim_trailing_newline_def trim_leading_newlines_def
        plain_double_quote_def plain_single_quote_def)
  with textEscape_idempotent[of "[0x0D, 0x0A, 0x0A, 0x201C, 0x61, 0x2019, 0x0A, 0x0D]"]
  show ?thesis by simp
qed

lemma andThen_Inr [simp]: "andThen (Inr x) f = f x" by (simp add: andThen_def)
lemma andThen_Inl [simp]: "andThen (Inl e) f = Inl e" by (simp add: andThen_def)
lemma andThen_eq_Inr: "andThen m f = Inr y \<longleftrightarrow> (\<exists>x. m = Inr x \<and> f x = Inr y)"
  by (cases m) auto

lemma paragraphBreak_sets_newPara:
  "Formatter_paragraphBreak f = Inr f' \<Longrightarrow> newPara f'"
  by (auto simp: Formatter_paragraphBreak_def andThen_eq_Inr split: if_splits)

lemma paragraphBreak_noop: "newPara f \<Longrightarrow> Formatter_paragraphBreak f = Inr f"
  by (simp add: Formatter_paragraphBreak_def)

lemma repeat_paragraphBreak_noop: "newPara f \<Longrightarrow> repeat_paragraphBreak n f = Inr f"
  by (induction n) (auto simp: paragraphBreak_noop)

lemma repeat_paragraphBreak_Suc:
  "repeat_paragraphBreak (Suc n) f = Formatter_paragraphBreak f"
proof (cases "Formatter_paragraphBreak f")
  case (Inl e) then show ?thesis by simp
next
  case (Inr f')
  then show ?thesis
    using paragraphBreak_sets_newPara[OF Inr] by (simp add: repeat_paragraphBreak_noop)
qed

lemma lf_run_append: "lf_run k (a @ b) \<longleftrightarrow> lf_run k a \<or> lf_run (lf_count k a) b"
  by (induction a arbitrary: k) auto

lemma lf_count_append: "lf_count k (a @ b) = lf_count (lf_count k a) b"
  by (induction a arbitrary: k) auto

lemma lf_run_hd: "s \<noteq> [] \<Longrightarrow> hd s \<noteq> LF \<Longrightarrow> lf_run k s = lf_run 0 s"
  by (cases s) auto

lemma lf_count_last: "s \<noteq> [] \<Longrightarrow> last s \<noteq> LF \<Longrightarrow> lf_count k s = 0"
  by (induction s arbitrary: k) (auto split: if_splits)

lemma line_block_run: "line_block w \<Longrightarrow> \<not> lf_run k w"
  using lf_run_hd by (auto simp: line_block_def)

lemma line_block_count: "line_block w \<Longrightarrow> lf_count k w = 0"
  using lf_count_last by (auto simp: line_block_def)


lemma collapse_space_no_LF: "LF \<notin> set (collapse_space t)"
proof (induction t rule: collapse_space.induct)
  case 1 then show ?case by simp
next
  case (2 c cs)
  then show ?case by (auto simp: is_space_def)
qed

lemma collapse_space_hd:
  "t \<noteq> [] \<Longrightarrow> \<not> is_space (hd t) \<Longrightarrow> collapse_space t \<noteq> [] \<and> hd (collapse_space t) = hd t"
  by (cases t) auto

lemma set_trim: "set (trim s) \<subseteq> set s"
  by (auto simp: trim_def dest!: set_dropWhileD)

lemma trim_nonempty:
  assumes "s \<noteq> []" "\<not> is_space (hd s)"
  shows "trim s \<noteq> []"
proof -
  from assms have d: "dropWhile is_space s = s" by (cases s) auto
  from assms have "\<not> is_space (last (rev s))" by (simp add: last_rev)
  then have "dropWhile is_space (rev s) \<noteq> []"
    using assms(1) by (metis dropWhile_eq_Nil_conv last_in_set rev_is_Nil_conv)
  then show ?thesis by (simp add: trim_def d)
qed

lemma mkspace_set: "set (mkspace n) \<subseteq> {SP}"
proof (induction n rule: mkspace.induct)
  case (1 n)
  show ?case
  proof (cases "n \<le> 1")
    case True then show ?thesis by (subst mkspace.simps) auto
  next
    case False
    with 1 show ?thesis by (subst mkspace.simps) (auto simp: Let_def)
  qed
qed

lemma no_LF_block: "s \<noteq> [] \<Longrightarrow> LF \<notin> set s \<Longrightarrow> line_block s"
proof -
  assume ne: "s \<noteq> []" and nl: "LF \<notin> set s"
  have "\<And>k. LF \<notin> set s \<Longrightarrow> \<not> lf_run k s" for s :: jsstring
    by (induction s) auto
  with ne nl show ?thesis
    by (auto simp: line_block_def dest: hd_in_set last_in_set)
qed

lemma makeWrap_ok:
  assumes "noWrap opts \<or> linewrap_ok lw"
  shows "wrap_ok (makeWrap lw opts cols tabw ind tag)"
proof (cases "noWrap opts")
  case True
  show ?thesis
    unfolding wrap_ok_def
  proof (intro allI impI)
    fix t :: jsstring assume t: "t \<noteq> [] \<and> \<not> is_space (hd t)"
    let ?body = "trim (collapse_space t)"
    have ne: "?body \<noteq> []"
      using collapse_space_hd[of t] t by (intro trim_nonempty) auto
    have nl: "LF \<notin> set ?body"
      using set_trim[of "collapse_space t"] collapse_space_no_LF[of t] by blast
    have "\<And>n. line_block (mkspace n @ ?body)"
    proof -
      fix n
      have "LF \<notin> set (mkspace n)" using mkspace_set[of n] by auto
      with ne nl show "line_block (mkspace n @ ?body)"
        by (intro no_LF_block) auto
    qed
    with True show "line_block (makeWrap lw opts cols tabw ind tag t)"
      by (simp add: makeWrap_def Let_def)
  qed
next
  case False
  with assms have "linewrap_ok lw" by simp
  with False show ?thesis
    by (simp add: makeWrap_def linewrap_ok_def Let_def)
qed


lemma inv_write: "formatter_inv lw f \<Longrightarrow> formatter_inv lw (Formatter_write t f)"
proof -
  assume inv: "formatter_inv lw f"
  have tl: "trim_left t \<noteq> [] \<Longrightarrow> \<not> is_space (hd (trim_left t))"
    using hd_dropWhile[of is_space t] by (simp add: trim_left_def)
  show ?thesis
  proof (cases "newLine f")
    case True
    with inv tl show ?thesis
      by (auto simp: formatter_inv_def Formatter_write_def Let_def emitted_def)
  next
    case False
    with inv show ?thesis
      by (auto simp: formatter_inv_def Formatter_write_def Let_def emitted_def)
  qed
qed

lemma inv_lineBreak:
  assumes "formatter_inv lw f" and "Formatter_lineBreak f = Inr f'"
  shows "formatter_inv lw f' \<and> newLine f' \<and> stateStack f' = stateStack f \<and> state f' = state f
         \<and> newPara f' = newPara f"
proof (cases "newLine f")
  case True
  with assms show ?thesis by (simp add: Formatter_lineBreak_def)
next
  case False
  with assms obtain st where st: "state f = Some st"
    and f': "f' = f\<lparr> outStream := outStream f @ [wrap st (concat (buffer f)), [LF]],
                  buffer := [], newLine := True \<rparr>"
    by (auto simp: Formatter_lineBreak_def split: option.splits)
  from assms(1) False st have "line_block (wrap st (concat (buffer f)))"
    by (auto simp: formatter_inv_def wrap_ok_def)
  then have run: "\<And>k. \<not> lf_run k (wrap st (concat (buffer f)))"
    and cnt: "\<And>k. lf_count k (wrap st (concat (buffer f))) = 0"
    by (simp_all add: line_block_run line_block_count)
  have em: "emitted f' = emitted f @ wrap st (concat (buffer f)) @ [LF]"
    by (simp add: f' emitted_def)
  have "\<not> lf_run 1 (emitted f')"
    using assms(1) run cnt unfolding em
    by (simp add: lf_run_append lf_count_append formatter_inv_def)
  moreover have "lf_count 1 (emitted f') = 1"
    using cnt unfolding em by (simp add: lf_count_append)
  moreover have "newPara f' = newPara f" "\<not> newPara f" using assms(1) False
    by (auto simp: f' formatter_inv_def)
  ultimately show ?thesis using assms(1) st
    by (simp add: formatter_inv_def f')
qed

lemma inv_paragraphBreak:
  assumes "formatter_inv lw f" and "Formatter_paragraphBreak f = Inr f'"
  shows "formatter_inv lw f'"
proof (cases "newPara f")
  case True
  with assms show ?thesis by (simp add: Formatter_paragraphBreak_def)
next
  case False
  with assms obtain g where g: "(if \<not> newLine f then Formatter_lineBreak f else Inr f) = Inr g"
    and f': "f' = g\<lparr> outStream := outStream g @ [[LF]], newPara := True \<rparr>"
    by (auto simp: Formatter_paragraphBreak_def andThen_eq_Inr)
  have ginv: "formatter_inv lw g \<and> newLine g \<and> \<not> newPara g"
    using g assms(1) False inv_lineBreak[of lw f g] by (auto split: if_splits)
  then have c1: "lf_count 1 (emitted g) = 1" and r: "\<not> lf_run 1 (emitted g)"
    by (auto simp: formatter_inv_def)
  have em: "emitted f' = emitted g @ [LF]" by (simp add: f' emitted_def)
  have "\<not> lf_run 1 (emitted f')" unfolding em using c1 r by (simp add: lf_run_append)
  with ginv show ?thesis by (simp add: formatter_inv_def f')
qed

lemma inv_indent:
  assumes "formatter_inv lw f" and "Formatter_indent lw tag f = Inr f'"
  shows "formatter_inv lw f'"
proof -
  let ?H = "\<lambda>g st. g\<lparr> stateStack := st # stateStack g,
                       state := Some \<lparr> indent = indent st + tabWidth g,
                         wrap = makeWrap lw (options g) (columns g) (tabWidth g) (indent st + tabWidth g) tag \<rparr> \<rparr>"
  from assms(2) obtain g st where g: "Formatter_lineBreak f = Inr g" and st: "state g = Some st"
    and f': "f' = (if truthy tag
                    then Formatter_write [SP] (Formatter_write (the tag) (?H g st))
                    else ?H g st)"
    by (auto simp: Formatter_indent_def andThen_eq_Inr Let_def split: option.splits)
  have ginv: "formatter_inv lw g" using inv_lineBreak[OF assms(1) g] by simp
  let ?h = "g\<lparr> stateStack := st # stateStack g,
                       state := Some \<lparr> indent = indent st + tabWidth g,
                         wrap = makeWrap lw (options g) (columns g) (tabWidth g) (indent st + tabWidth g) tag \<rparr> \<rparr>"
  have "noWrap (options g) \<or> linewrap_ok lw" using ginv by (simp add: formatter_inv_def)
  then have "wrap_ok (makeWrap lw (options g) (columns g) (tabWidth g) (indent st + tabWidth g) tag)"
    by (rule makeWrap_ok)
  with ginv st have "formatter_inv lw ?h"
    by (simp add: formatter_inv_def emitted_def)
  then show ?thesis
    unfolding f' by (auto intro: inv_write)
qed

lemma inv_dedent:
  assumes "formatter_inv lw f" and "Formatter_dedent f = Inr f'"
  shows "formatter_inv lw f'"
proof -
  from assms(2) obtain g where g: "Formatter_lineBreak f = Inr g"
    and f': "f' = (case stateStack g of
              [] \<Rightarrow> g\<lparr> state := None \<rparr>
            | st # rest \<Rightarrow> g\<lparr> state := Some st, stateStack := rest \<rparr>)"
    by (auto simp: Formatter_dedent_def andThen_eq_Inr)
  have ginv: "formatter_inv lw g" using inv_lineBreak[OF assms(1) g] by simp
  then show ?thesis
    unfolding f' by (auto simp: formatter_inv_def emitted_def split: list.splits)
qed

lemma inv_init:
  "noWrap opts \<or> linewrap_ok lw \<Longrightarrow> formatter_inv lw (Formatter lw opts)"
  by (simp add: formatter_inv_def Formatter_def Let_def emitted_def makeWrap_ok)

lemma inv_apply_fop:
  "formatter_inv lw f \<Longrightarrow> apply_fop lw x f = Inr f' \<Longrightarrow> formatter_inv lw f'"
proof (cases x)
  case (WriteHeading h)
  assume "formatter_inv lw f" "apply_fop lw x f = Inr f'"
  with WriteHeading show ?thesis
    by (auto simp: Formatter_writeHeading_def andThen_eq_Inr
        intro: inv_paragraphBreak inv_write)
next
  case (WriteTitle t s)
  assume a: "formatter_inv lw f" "apply_fop lw x f = Inr f'"
  with WriteTitle obtain g h where g: "Formatter_lineBreak (Formatter_write (trim t) f) = Inr g"
    and h: "(if truthy s then Formatter_lineBreak (Formatter_write (trim (the s)) g) else Inr g) = Inr h"
    and f': "Formatter_paragraphBreak h = Inr f'"
    by (auto simp: Formatter_writeTitle_def andThen_eq_Inr)
  have "formatter_inv lw g" using inv_lineBreak[OF inv_write[OF a(1)] g] by simp
  then have "formatter_inv lw h" using h inv_lineBreak[OF inv_write, of lw g]
    by (auto split: if_splits)
  then show ?thesis using f' by (rule inv_paragraphBreak)
next
  case (WriteSummary s)
  assume a: "formatter_inv lw f" "apply_fop lw x f = Inr f'"
  with WriteSummary obtain g h k where g: "Formatter_paragraphBreak f = Inr g"
    and h: "Formatter_indent lw None g = Inr h"
    and k: "Formatter_dedent (Formatter_write (trim s) h) = Inr k"
    and f': "Formatter_paragraphBreak k = Inr f'"
    by (auto simp: Formatter_writeSummary_def andThen_eq_Inr)
  have "formatter_inv lw h" using inv_indent[OF inv_paragraphBreak[OF a(1) g] h] .
  then have "formatter_inv lw k" using inv_dedent[OF inv_write k] by simp
  then show ?thesis using f' by (rule inv_paragraphBreak)
qed (auto simp: Formatter_flush_def intro: inv_write inv_paragraphBreak inv_indent inv_dedent
      dest: inv_lineBreak)

lemma inv_run_fops:
  "formatter_inv lw f \<Longrightarrow> run_fops lw xs f = Inr f' \<Longrightarrow> formatter_inv lw f'"
  by (induction xs arbitrary: f) (auto simp: andThen_eq_Inr dest: inv_apply_fop)


lemma lf_run_sound:
  "lf_run k (a @ [LF, LF, LF] @ b)"
  by (induction a arbitrary: k) auto

lemma lf_run_complete:
  "lf_run k s \<Longrightarrow> k \<le> 2 \<Longrightarrow>
     (\<exists>b. s = replicate (3 - k) LF @ b) \<or> (\<exists>a b. s = a @ [LF, LF, LF] @ b)"
proof (induction s arbitrary: k)
  case Nil then show ?case by simp
next
  case (Cons c cs)
  show ?case
  proof (cases "c = LF")
    case False
    with Cons.prems have "lf_run 0 cs" by simp
    from Cons.IH[OF this] have "(\<exists>b. cs = [LF, LF, LF] @ b) \<or> (\<exists>a b. cs = a @ [LF, LF, LF] @ b)"
      by (simp add: numeral_3_eq_3)
    then obtain a b where "cs = a @ [LF, LF, LF] @ b" by (metis append_Nil)
    then have "c # cs = (c # a) @ [LF, LF, LF] @ b" by simp
    then show ?thesis by blast
  next
    case True
    show ?thesis
    proof (cases "k = 2")
      case True
      with \<open>c = LF\<close> show ?thesis by simp
    next
      case False
      with Cons.prems True have r: "lf_run (Suc k) cs" and k: "Suc k \<le> 2" by auto
      from Cons.IH[OF r k] show ?thesis
      proof
        assume "\<exists>b. cs = replicate (3 - Suc k) LF @ b"
        then obtain b where "cs = replicate (3 - Suc k) LF @ b" ..
        then have "c # cs = replicate (3 - k) LF @ b"
          using True k by (simp add: Suc_diff_le replicate_Suc[symmetric] del: replicate_Suc)
        then show ?thesis by blast
      next
        assume "\<exists>a b. cs = a @ [LF, LF, LF] @ b"
        then obtain a b where "cs = a @ [LF, LF, LF] @ b" by blast
        then have "c # cs = (c # a) @ [LF, LF, LF] @ b" by simp
        then show ?thesis by blast
      qed
    qed
  qed
qed

lemma consecutive_blank_lines_iff:
  "consecutive_blank_lines s \<longleftrightarrow> (\<exists>b. s = LF # LF # b) \<or> (\<exists>a b. s = a @ [LF, LF, LF] @ b)"
  unfolding consecutive_blank_lines_def
proof
  assume "lf_run 1 s"
  from lf_run_complete[OF this] show "(\<exists>b. s = LF # LF # b) \<or> (\<exists>a b. s = a @ [LF, LF, LF] @ b)"
    by (simp add: numeral_2_eq_2)
next
  assume "(\<exists>b. s = LF # LF # b) \<or> (\<exists>a b. s = a @ [LF, LF, LF] @ b)"
  then show "lf_run 1 s" using lf_run_sound by auto
qed
lemma paragraphBreak_emits:
  assumes "Formatter_paragraphBreak f = Inr f'"
  shows "outStream f' = outStream f \<or> outStream f' = outStream f @ [[LF]] \<or>
         (\<exists>line. outStream f' = outStream f @ [line, [LF], [LF]])"
  using assms
  by (auto simp: Formatter_paragraphBreak_def Formatter_lineBreak_def andThen_eq_Inr
      split: if_splits option.splits)

text \<open>
  Claim C3.  \<open>N \<ge> 1\<close> consecutive calls of \<^verbatim>\<open>paragraphBreak()\<close> are one call, on every
  Formatter state, because the call is a no-op once \<open>newPara\<close> is set; one call writes
  nothing, one line feed, or the buffered line, its terminator and one line feed.
  No series of Formatter operations on a new Formatter writes two consecutive blank
  lines (in no-wrap mode; with wrapping, provided the \<^verbatim>\<open>linewrap\<close> package lays a
  text out as non-empty lines).
\<close>

theorem paragraphBreak_single_blank_line:
  "(1 \<le> N \<longrightarrow> repeat_paragraphBreak N f = Formatter_paragraphBreak f) \<and>
   (newPara f \<longrightarrow> Formatter_paragraphBreak f = Inr f) \<and>
   (Formatter_paragraphBreak f = Inr f' \<longrightarrow>
      outStream f' = outStream f \<or> outStream f' = outStream f @ [[LF]] \<or>
      (\<exists>line. outStream f' = outStream f @ [line, [LF], [LF]])) \<and>
   ((noWrap opts \<or> linewrap_ok lw) \<and> run_fops lw ops (Formatter lw opts) = Inr g \<longrightarrow>
      \<not> consecutive_blank_lines (emitted g))"
proof (intro conjI impI)
  assume "1 \<le> N"
  then obtain n where "N = Suc n" by (cases N) auto
  then show "repeat_paragraphBreak N f = Formatter_paragraphBreak f"
    by (simp only: repeat_paragraphBreak_Suc)
next
  assume "newPara f" then show "Formatter_paragraphBreak f = Inr f"
    by (rule paragraphBreak_noop)
next
  assume "Formatter_paragraphBreak f = Inr f'"
  then show "outStream f' = outStream f \<or> outStream f' = outStream f @ [[LF]] \<or>
      (\<exists>line. outStream f' = outStream f @ [line, [LF], [LF]])"
    by (rule paragraphBreak_emits)
next
  assume a: "(noWrap opts \<or> linewrap_ok lw) \<and> run_fops lw ops (Formatter lw opts) = Inr g"
  then have "formatter_inv lw g"
    using inv_run_fops[OF inv_init] by blast
  then show "\<not> consecutive_blank_lines (emitted g)"
    by (simp add: formatter_inv_def consecutive_blank_lines_def)
qed


lemma demo_ops_emitted:
  "map_sum id emitted (run_fops plain_linewrap demo_ops (Formatter plain_linewrap nowrap_options))
   = Inr (js ''a'' @ [LF, LF] @ js ''b c'' @ [LF, LF])"
  by (simp add: Formatter_def nowrap_options_def Formatter_write_def Formatter_paragraphBreak_def
      Formatter_lineBreak_def makeWrap_def mkspace.simps[of 0] trim_def trim_left_def is_space_def
      js_def emitted_def truthy_def Let_def demo_ops_def)

lemma demo_paragraphBreak_outStream:
  "map_sum id outStream
     (Formatter_paragraphBreak (Formatter_write (js ''a'') (Formatter plain_linewrap nowrap_options)))
   = Inr [js ''a'', [LF], [LF]]"
  by (simp add: Formatter_def nowrap_options_def Formatter_write_def Formatter_paragraphBreak_def
      Formatter_lineBreak_def makeWrap_def mkspace.simps[of 0] trim_def trim_left_def is_space_def
      js_def truthy_def Let_def)

theorem paragraphBreak_single_blank_line_witness:
  "(1::nat) \<le> 3 \<and>
   map_sum id outStream
     (repeat_paragraphBreak 3 (Formatter_write (js ''a'') (Formatter plain_linewrap nowrap_options)))
     = Inr [js ''a'', [LF], [LF]] \<and>
   newPara (Formatter plain_linewrap nowrap_options) \<and>
   Formatter_paragraphBreak (Formatter plain_linewrap nowrap_options)
     = Inr (Formatter plain_linewrap nowrap_options) \<and>
   noWrap nowrap_options \<and>
   map_sum id emitted (run_fops plain_linewrap demo_ops (Formatter plain_linewrap nowrap_options))
     = Inr (js ''a'' @ [LF, LF] @ js ''b c'' @ [LF, LF]) \<and>
   \<not> consecutive_blank_lines (js ''a'' @ [LF, LF] @ js ''b c'' @ [LF, LF])"
proof -
  let ?F0 = "Formatter plain_linewrap nowrap_options"
  let ?F1 = "Formatter_write (js ''a'') ?F0"
  obtain g where g: "run_fops plain_linewrap demo_ops ?F0 = Inr g"
    and eg: "emitted g = js ''a'' @ [LF, LF] @ js ''b c'' @ [LF, LF]"
    using demo_ops_emitted by (cases "run_fops plain_linewrap demo_ops ?F0") auto
  have n: "noWrap nowrap_options" by (simp add: nowrap_options_def)
  have p: "newPara ?F0" by (simp add: Formatter_def Let_def)
  have le: "(1::nat) \<le> 3" by simp
  note T = paragraphBreak_single_blank_line[of 3 ?F1 ?F1 nowrap_options plain_linewrap demo_ops g]
  note U = paragraphBreak_single_blank_line[of 3 ?F0 ?F0 nowrap_options plain_linewrap demo_ops g]
  from T le have "repeat_paragraphBreak 3 ?F1 = Formatter_paragraphBreak ?F1" by blast
  moreover from U p have "Formatter_paragraphBreak ?F0 = Inr ?F0" by blast
  moreover from T n g have "\<not> consecutive_blank_lines (emitted g)" by blast
  ultimately show ?thesis
    using demo_paragraphBreak_outStream demo_ops_emitted n p eg by simp
qed

section \<open>Properties of the macro interpreter\<close>

text \<open>Every input is in the domain of the recursion (the termination proof, as a fact).\<close>

lemma cleanMath_total: "All cleanMath_loop_cleanMath_args_dom"
proof (relation "measure (\<lambda>x. case x of
          Inl (math, result, g) \<Rightarrow> 2 * length math + 1
        | Inr (args, g) \<Rightarrow> 2 * arg_weight args)", goal_cases)
  case 1 show ?case by simp
next
  case (2 math result g x2 x y xa ya xb yb xc xd xe yc xf yd xg)
  then have "exec_macro math = Some (x, xa, xb, yb)"
    and "(xe, xf, yd) = (if xb \<noteq> None then find_args yb 0 1 [] else ([], yb, None))"
    by auto
  from cleanMath_loop_measure[OF this] show ?case by simp
next
  case (3 math result g x2 x y xa ya xb yb xc xd xe yc xf yd xg xh xi ye xj)
  then have "exec_macro math = Some (x, xa, xb, yb)"
    and "(xe, xf, yd) = (if xb \<noteq> None then find_args yb 0 1 [] else ([], yb, None))"
    by auto
  from cleanMath_loop_measure[OF this] show ?case by simp
next
  case (4 math result g x2 x y xa ya xb yb xc xd xe yc xf yd xg xh xi ye x2a)
  then have "exec_macro math = Some (x, xa, xb, yb)"
    and "(xe, xf, yd) = (if xb \<noteq> None then find_args yb 0 1 [] else ([], yb, None))"
    by auto
  from cleanMath_loop_measure[OF this] show ?case by simp
next
  case (5 a as g)
  show ?case by (simp add: arg_weight_def)
next
  case (6 a as g x xa y)
  show ?case by (simp add: arg_weight_def)
qed

lemma search_delim_None: "search_delim s = None \<longleftrightarrow> (\<forall>c \<in> set s. \<not> is_delim c)"
  by (induction s) auto

lemma search_delim_Some:
  "search_delim s = Some n \<Longrightarrow> is_delim (s ! n) \<and> (\<forall>c \<in> set (take n s). \<not> is_delim c)"
  by (induction s arbitrary: n) (auto split: if_splits)

lemma closes_no_delim: "\<forall>c \<in> set s. \<not> is_delim c \<Longrightarrow> \<not> closes opn s"
  by (induction s arbitrary: opn) (auto simp: is_open_delim_def is_delim_def)

lemma closes_skip:
  "\<forall>c \<in> set a. \<not> is_delim c \<Longrightarrow> closes opn (a @ s) = closes opn s"
  by (induction a) (auto simp: is_open_delim_def is_delim_def)

lemma find_args_unterminated:
  "\<not> closes opn (drop lasti math) \<Longrightarrow>
   find_args math lasti opn args = (args @ [math], [], Some math)"
proof (induction math lasti opn args rule: find_args.induct)
  case (1 math lasti opn args)
  show ?case
  proof (cases "search_delim (drop lasti math)")
    case None
    then show ?thesis by (simp add: find_args.simps[of math lasti])
  next
    case (Some nxt)
    note lt = search_delim_less[OF Some]
    from search_delim_Some[OF Some] have d: "is_delim (math ! (lasti + nxt))"
      and nd: "\<forall>c \<in> set (take nxt (drop lasti math)). \<not> is_delim c"
      using lt by (auto simp: add.commute)
    have split: "drop lasti math = take nxt (drop lasti math) @ (math ! (lasti + nxt)) # drop (lasti + nxt + 1) math"
      using lt by (metis Cons_nth_drop_Suc Suc_eq_plus1 add.commute append_take_drop_id drop_drop length_drop less_diff_conv nth_drop)
    from "1.prems" have nc: "\<not> closes opn ((math ! (lasti + nxt)) # drop (lasti + nxt + 1) math)"
      using closes_skip[OF nd, of opn "(math ! (lasti + nxt)) # drop (lasti + nxt + 1) math"] split
      by simp
    show ?thesis
    proof (cases "is_open_delim (math ! (lasti + nxt))")
      case True
      with nc have "\<not> closes (opn + 1) (drop (lasti + nxt + 1) math)" by simp
      from "1.IH"(1)[OF Some True this] Some True show ?thesis
        by (simp add: find_args.simps[of math lasti])
    next
      case False
      with nc d have ne: "opn - 1 \<noteq> 0" and "\<not> closes (opn - 1) (drop (lasti + nxt + 1) math)"
        by auto
      from "1.IH"(3)[OF Some False ne this(2)] Some False ne show ?thesis
        by (simp add: find_args.simps[of math lasti])
    qed
  qed
qed

lemma cleanMath_loop_Nil: "cleanMath_loop [] result g = Inr (result, g)"
  by (simp add: cleanMath_loop.simps[of "[]"] exec_macro_def)

lemma cleanMath_args_single:
  "cleanMath_args [a] g = andThen (cleanMath a g) (\<lambda>(r, g). Inr ([r], g))"
  by (auto simp: cleanMath_def andThen_def split: sum.splits)

lemma cleanMath_unterminated:
  assumes "exec_macro math = Some (pre, fname, Some d, math1)" and "\<not> closes 1 math1"
  shows "cleanMath_loop math result g =
     andThen (cleanMath math1 (g\<lparr> console := console g @ [UnterminatedMathArgument fname math1] \<rparr>))
       (\<lambda>(a, g). case map_of funcMap fname of
           None \<Rightarrow> andThen (warn_unknown fname g)
                     (\<lambda>g. Inr (result @ pre @ [BSL] @ fname @ [0x7B] @ a @ [0x7D] @ [SP], g))
         | Some fn \<Rightarrow> Inr (result @ pre @ apply_mathfn fn [a], g))"
proof -
  from assms(2) have fa: "find_args math1 0 1 [] = ([math1], [], Some math1)"
    using find_args_unterminated[of 1 0 math1 "[]"] by simp
  let ?g = "g\<lparr> console := console g @ [UnterminatedMathArgument fname math1] \<rparr>"
  show ?thesis
  proof (cases "cleanMath_loop math1 [] ?g")
    case (Inl e)
    then show ?thesis
      by (subst cleanMath_loop.simps) (simp add: assms(1) fa cleanMath_def)
  next
    case (Inr p)
    obtain a g2 where p: "p = (a, g2)" by (cases p)
    show ?thesis
    proof (cases "map_of funcMap fname")
      case None
      then show ?thesis
        by (subst cleanMath_loop.simps, cases "warn_unknown fname g2")
          (simp_all add: assms(1) fa cleanMath_def Inr p cleanMath_loop_Nil)
    next
      case (Some fn)
      then show ?thesis
        by (subst cleanMath_loop.simps)
          (simp add: assms(1) fa cleanMath_def Inr p cleanMath_loop_Nil)
    qed
  qed
qed

text \<open>
  Claim C5.  \<open>cleanMath\<close> terminates on every input: every input of the loop is in
  the accessible part of the relation of its recursive calls (the next iteration
  and the interpretation of each argument), so no chain of calls is infinite.  In
  particular, when the name opens an argument (group 2 matched) and depth counting
  over the rest finds no matching close, the whole rest is the single argument, the
  text left to scan is empty, and the loop ends with the handler's result.
\<close>

theorem cleanMath_terminates:
  "cleanMath_loop_cleanMath_args_dom (Inl (math, result, g)) \<and>
   (exec_macro math = Some (pre, fname, Some d, math1) \<and> \<not> closes 1 math1 \<longrightarrow>
      find_args math1 0 1 [] = ([math1], [], Some math1) \<and>
      cleanMath_loop math result g =
        andThen (cleanMath math1
                   (g\<lparr> console := console g @ [UnterminatedMathArgument fname math1] \<rparr>))
          (\<lambda>(a, g). case map_of funcMap fname of
              None \<Rightarrow> andThen (warn_unknown fname g)
                        (\<lambda>g. Inr (result @ pre @ [BSL] @ fname @ [0x7B] @ a @ [0x7D] @ [SP], g))
            | Some fn \<Rightarrow> Inr (result @ pre @ apply_mathfn fn [a], g)))"
  using cleanMath_total cleanMath_unterminated find_args_unterminated[of 1 0 math1 "[]"]
  by auto

theorem cleanMath_terminates_witness:
  "exec_macro (BSL # js ''sqrt{x'') = Some ([], js ''sqrt'', Some 0x7B, js ''x'') \<and>
   \<not> closes 1 (js ''x'') \<and>
   find_args (js ''x'') 0 1 [] = ([js ''x''], [], Some (js ''x'')) \<and>
   cleanMath (BSL # js ''sqrt{x'') globals0 =
     Inr ([0x221A, 0x28, 0x78, 0x29],
          \<lparr> warned = {}, console = [UnterminatedMathArgument (js ''sqrt'') (js ''x'')] \<rparr>)"
proof -
  have e: "exec_macro (BSL # js ''sqrt{x'') = Some ([], js ''sqrt'', Some 0x7B, js ''x'')"
    by code_simp
  have c: "\<not> closes 1 (js ''x'')" by code_simp
  have r: "cleanMath (js ''x'') (globals0\<lparr> console := console globals0 @ [UnterminatedMathArgument (js ''sqrt'') (js ''x'')] \<rparr>)
      = Inr (js ''x'', \<lparr> warned = {}, console = [UnterminatedMathArgument (js ''sqrt'') (js ''x'')] \<rparr>)"
    by code_simp
  have f: "map_of funcMap (js ''sqrt'') = Some Sqrt" by code_simp
  from cleanMath_terminates[of "BSL # js ''sqrt{x''" "[]" globals0 "[]" "js ''sqrt''" "0x7B" "js ''x''"] e c
  have fa: "find_args (js ''x'') 0 1 [] = ([js ''x''], [], Some (js ''x''))"
    and cl: "cleanMath_loop (BSL # js ''sqrt{x'') [] globals0 =
        andThen (cleanMath (js ''x'')
                   (globals0\<lparr> console := console globals0 @
                      [UnterminatedMathArgument (js ''sqrt'') (js ''x'')] \<rparr>))
          (\<lambda>(a, g). case map_of funcMap (js ''sqrt'') of
              None \<Rightarrow> andThen (warn_unknown (js ''sqrt'') g)
                        (\<lambda>g. Inr ([] @ [] @ [BSL] @ js ''sqrt'' @ [0x7B] @ a @ [0x7D] @ [SP], g))
            | Some fn \<Rightarrow> Inr ([] @ [] @ apply_mathfn fn [a], g))"
    by blast+
  have "cleanMath (BSL # js ''sqrt{x'') globals0 =
     Inr ([0x221A, 0x28, 0x78, 0x29],
          \<lparr> warned = {}, console = [UnterminatedMathArgument (js ''sqrt'') (js ''x'')] \<rparr>)"
    apply (simp only: cleanMath_def[of "BSL # js ''sqrt{x''"] cl r f)
    apply (simp add: js_def)
    done
  with e c fa show ?thesis by blast
qed

text \<open>
  Claim C6.  An unknown name is copied with its arguments in braces and a space, and
  warned about once; but the name \<^verbatim>\<open>hasOwnProperty\<close>, itself unknown, is stored in
  \<^verbatim>\<open>warned\<close> at its first occurrence, and the next unknown name met (here its own
  second occurrence) raises a TypeError instead of being copied.
\<close>

theorem cleanMath_hasOwnProperty_TypeError:
  "cleanMath (BSL # js ''hasOwnProperty'' @ BSL # js ''hasOwnProperty'') globals0 = Inl TypeError"
  by code_simp

section \<open>The branches of \<open>visit\<close>\<close>

lemma visit_hidden:
  "isHidden e (Element name attrs cs) \<Longrightarrow> visit e hp (Element name attrs cs) v = Inr v"
  by (subst visit.simps(3)) (simp add: Let_def)

lemma visit_language:
  "\<not> isHidden e (Element name attrs cs) \<Longrightarrow>
   declared_lang (Element name attrs cs) v \<noteq> currentLanguage v \<Longrightarrow>
   visit e hp (Element name attrs cs) v =
     visitLANG e (Element name attrs cs) (visit e hp (Element name attrs cs))
       (v\<lparr> usedLanguages :=
            insert (declared_lang (Element name attrs cs) v) (usedLanguages v) \<rparr>)"
  by (subst visit.simps(3)) (simp add: Let_def)

lemma visit_direction:
  "\<not> isHidden e (Element name attrs cs) \<Longrightarrow>
   declared_lang (Element name attrs cs) v = currentLanguage v \<Longrightarrow>
   declared_dir (Element name attrs cs) v \<noteq> currentDirectionality v \<Longrightarrow>
   visit e hp (Element name attrs cs) v =
     visitDIR (Element name attrs cs) (visit e hp (Element name attrs cs)) v"
  by (subst visit.simps(3)) (simp add: Let_def)

lemma visit_method:
  "\<not> isHidden e (Element name attrs cs) \<Longrightarrow>
   declared_lang (Element name attrs cs) v = currentLanguage v \<Longrightarrow>
   declared_dir (Element name attrs cs) v = currentDirectionality v \<Longrightarrow>
   find_method (Element name attrs cs) = Some m \<Longrightarrow>
   visit e hp (Element name attrs cs) v =
     call_method e hp m (Element name attrs cs) (visitChildren e cs) (visitReferences e 0 cs) v"
  by (subst visit.simps(3)) (simp add: Let_def)

lemma visit_flatten:
  "\<not> isHidden e (Element name attrs cs) \<Longrightarrow>
   declared_lang (Element name attrs cs) v = currentLanguage v \<Longrightarrow>
   declared_dir (Element name attrs cs) v = currentDirectionality v \<Longrightarrow>
   find_method (Element name attrs cs) = None \<Longrightarrow>
   visit e hp (Element name attrs cs) v = visitChildren e cs v"
  by (subst visit.simps(3)) (simp add: Let_def)

section \<open>Ordered lists\<close>

text \<open>The label of a list item is the bullet of the depth, whatever the list.\<close>

lemma visitLI_bullet:
  "visitLI e vc v =
     andThen (format_indent e (Some (charAt (js ''*-+'') (depth (listInfo v) mod 3))) v)
       (\<lambda>v. andThen (vc v) format_dedent)"
  by (simp add: visitLI_def listInfo_is_string_def Let_def)

text \<open>
  Claim C1.  The four items of a top-level ordered list are written with the bullet
  \<^verbatim>\<open>-\<close> of depth 1, as the items of an unordered list are, and not with the
  counters \<^verbatim>\<open>1\<close> to \<^verbatim>\<open>4\<close>: the test \<^verbatim>\<open>this.listInfo === 'OL'\<close> never holds.
\<close>

theorem ordered_list_items_get_bullets:
  "map_sum id (\<lambda>v. sink_emitted (format v)) (visit demo_env True demo_ol demo_visitor) =
     Inr (js ''- a'' @ [LF] @ js ''- b'' @ [LF] @ js ''- c'' @ [LF] @ js ''- d'' @ [LF])"
  by code_simp

section \<open>Malformed metadata\<close>

lemma isMultipleImageTemplate_malformed:
  "getAttribute node (js ''data-mw'') = Some s \<Longrightarrow> JSON_parse e s = None \<Longrightarrow>
   \<not> isMultipleImageTemplate e node"
  by (simp add: isMultipleImageTemplate_def template_href_def parse_attribute_def)

lemma visitTYPEOF_math_malformed:
  "getAttribute node (js ''data-mw'') = Some s \<Longrightarrow> JSON_parse e s = None \<Longrightarrow>
   visitTYPEOF_math e node display v = Inl SyntaxError"
  by (simp add: visitTYPEOF_math_def parse_attribute_def)

lemma demo_bad_template_visited:
  "map_sum id (\<lambda>v. sink_emitted (format v)) (visit demo_env True demo_bad_template demo_visitor) =
     Inr (js ''text'' @ [LF])"
  by code_simp

text \<open>
  Claim C2.  A malformed \<^verbatim>\<open>data-mw\<close> is caught in \<^verbatim>\<open>isMultipleImageTemplate\<close>, but
  the math extension handler has no \<^verbatim>\<open>try\<close>: visiting the math element whose
  \<^verbatim>\<open>data-mw\<close> is \<^verbatim>\<open>not json\<close> ends with the SyntaxError of \<^verbatim>\<open>JSON.parse\<close>.
\<close>

theorem malformed_math_metadata_raises:
  "visit demo_env True demo_bad_math demo_visitor = Inl SyntaxError"
proof -
  have "map_sum id (\<lambda>v. ()) (visit demo_env True demo_bad_math demo_visitor) = Inl SyntaxError"
    by code_simp
  then show ?thesis
    by (cases "visit demo_env True demo_bad_math demo_visitor") auto
qed

section \<open>Language and direction are scoped\<close>

lemma lang_frame_refl [simp]: "lang_frame v v"
  by (simp add: lang_frame_def)

lemma lang_frame_trans: "lang_frame a c \<Longrightarrow> lang_frame c d \<Longrightarrow> lang_frame a d"
  by (auto simp: lang_frame_def)

lemma lang_frame_update [simp]:
  "lang_frame v (w\<lparr> format := s \<rparr>) = lang_frame v w"
  "lang_frame (v\<lparr> format := s \<rparr>) w = lang_frame v w"
  "lang_frame v (w\<lparr> listInfo := l \<rparr>) = lang_frame v w"
  "lang_frame (v\<lparr> listInfo := l \<rparr>) w = lang_frame v w"
  "lang_frame v (w\<lparr> world := g \<rparr>) = lang_frame v w"
  "lang_frame (v\<lparr> world := g \<rparr>) w = lang_frame v w"
  "lang_frame v (w\<lparr> templates := t \<rparr>) = lang_frame v w"
  "lang_frame (v\<lparr> templates := t \<rparr>) w = lang_frame v w"
  by (simp_all add: lang_frame_def)

lemma keeps_langD: "keeps_lang f \<Longrightarrow> f v = Inr v' \<Longrightarrow> lang_frame v v'"
  by (simp add: keeps_lang_def)

lemma lang_frame_format_write [simp]:
  "lang_frame (format_write t v) w = lang_frame v w"
  "lang_frame v (format_write t w) = lang_frame v w"
  by (simp_all add: format_write_def)

lemma format_ops_lang:
  "format_lineBreak v = Inr v' \<Longrightarrow> lang_frame v v'"
  "format_paragraphBreak v = Inr v' \<Longrightarrow> lang_frame v v'"
  "format_indent e tag v = Inr v' \<Longrightarrow> lang_frame v v'"
  "format_dedent v = Inr v' \<Longrightarrow> lang_frame v v'"
  "format_writeHeading h v = Inr v' \<Longrightarrow> lang_frame v v'"
  by (auto simp: format_lineBreak_def format_paragraphBreak_def
      format_indent_def format_dedent_def format_writeHeading_def andThen_eq_Inr)

lemma set_sawDT_lang [simp]:
  "lang_frame v (set_sawDT x w) = lang_frame v w"
  "lang_frame (set_sawDT x v) w = lang_frame v w"
  by (simp_all add: set_sawDT_def)

lemma visit_text_lang: "lang_frame v (visit_text d v)"
  by (simp add: visit_text_def Let_def)

lemma collect_lang:
  assumes "keeps_lang vc" and "\<And>t. keeps_lang (f t)" and "collect vc f v = Inr v'"
  shows "lang_frame v v'"
proof -
  from assms(3) obtain r where r: "vc (v\<lparr> format := Collect \<lparr> c_newLine = True, c_newPara = True, c_b = [] \<rparr> \<rparr>) = Inr r"
    and f: "f (collapse_space (concat (collected (format r)))) (r\<lparr> format := format v \<rparr>) = Inr v'"
    by (auto simp: collect_def Let_def andThen_eq_Inr)
  from keeps_langD[OF assms(1) r] have "lang_frame v r" by simp
  moreover from keeps_langD[OF assms(2) f] have "lang_frame r v'" by simp
  ultimately show ?thesis by (rule lang_frame_trans)
qed

lemma write_script_lang: "keeps_lang (write_script m t)"
  by (simp add: keeps_lang_def write_script_def)

lemma visitSUB_lang: "keeps_lang vc \<Longrightarrow> visitSUB vc v = Inr v' \<Longrightarrow> lang_frame v v'"
  unfolding visitSUB_def by (rule collect_lang[OF _ write_script_lang])

lemma visitSUP_lang: "keeps_lang vc \<Longrightarrow> visitSUP node vc v = Inr v' \<Longrightarrow> lang_frame v v'"
  unfolding visitSUP_def
  by (auto split: if_splits intro: collect_lang[OF _ write_script_lang])

lemma visitP_lang: "keeps_lang vc \<Longrightarrow> visitP vc v = Inr v' \<Longrightarrow> lang_frame v v'"
  unfolding visitP_def
  by (auto simp: andThen_eq_Inr dest!: format_ops_lang keeps_langD intro: lang_frame_trans)

lemma visitCENTER_lang: "keeps_lang vc \<Longrightarrow> visitCENTER vc v = Inr v' \<Longrightarrow> lang_frame v v'"
  unfolding visitCENTER_def
  by (auto simp: andThen_eq_Inr dest!: format_ops_lang keeps_langD intro: lang_frame_trans)

lemma visitHn_lang: "keeps_lang vc \<Longrightarrow> visitHn n vc v = Inr v' \<Longrightarrow> lang_frame v v'"
  unfolding visitHn_def Let_def
  by (auto split: if_splits intro!: collect_lang[of vc format_writeHeading]
      simp: keeps_lang_def format_ops_lang)

lemma visitREL_dc_references_lang:
  assumes "keeps_lang vc" and "visitREL_dc_references node vc v = Inr v'"
  shows "lang_frame v v'"
proof (cases "noRefs (voptions v)")
  case True
  with assms(2) show ?thesis by (simp add: visitREL_dc_references_def)
next
  case False
  have k: "\<And>t. keeps_lang (\<lambda>v. Inr (visit_text t v))"
    by (simp add: keeps_lang_def visit_text_lang)
  have "\<And>t. keeps_lang (\<lambda>v.
             if is_reference_mark t then
               (let textContent = butlast (tl t) @ [SP]
                in visitSUP (Element (js ''SUP'') [] [Text textContent])
                     (\<lambda>v. Inr (visit_text textContent v)) v)
             else visitSUP node vc v)"
    unfolding keeps_lang_def Let_def
    using visitSUP_lang[OF k] visitSUP_lang[OF assms(1)] by (auto split: if_splits)
  from collect_lang[OF assms(1) this] assms(2) False show ?thesis
    by (simp add: visitREL_dc_references_def)
qed

lemma visitOL_lang: "keeps_lang vc \<Longrightarrow> visitOL e node vc v = Inr v' \<Longrightarrow> lang_frame v v'"
  unfolding visitOL_def Let_def
  by (auto simp: andThen_eq_Inr split: if_splits dest!: keeps_langD)

lemma visitLI_lang: "keeps_lang vc \<Longrightarrow> visitLI e vc v = Inr v' \<Longrightarrow> lang_frame v v'"
  unfolding visitLI_def Let_def listInfo_is_string_def
  by (auto simp: andThen_eq_Inr dest!: format_ops_lang keeps_langD intro: lang_frame_trans)

lemma visitBLOCKQUOTE_lang:
  "keeps_lang vc \<Longrightarrow> visitBLOCKQUOTE e vc v = Inr v' \<Longrightarrow> lang_frame v v'"
  unfolding visitBLOCKQUOTE_def
  by (auto simp: andThen_eq_Inr dest!: format_ops_lang keeps_langD intro: lang_frame_trans)

lemma visitDD_lang: "keeps_lang vc \<Longrightarrow> visitDD e vc v = Inr v' \<Longrightarrow> lang_frame v v'"
  unfolding visitDD_def
  by (auto simp: andThen_eq_Inr split: if_splits dest!: format_ops_lang keeps_langD
      intro: lang_frame_trans)

lemma visitDT_lang:
  assumes "keeps_lang vc" and "visitDT e vc v = Inr v'"
  shows "lang_frame v v'"
proof -
  have k: "\<And>t. keeps_lang (\<lambda>v. andThen (format_indent e (Some t) v) (\<lambda>v. Inr (set_sawDT True v)))"
    by (auto simp: keeps_lang_def andThen_eq_Inr dest!: format_ops_lang)
  from assms(2) obtain w where w: "(if sawDT (listInfo v)
              then andThen (format_dedent v) (\<lambda>v. Inr (set_sawDT False v))
              else Inr v) = Inr w"
    and c: "collect vc (\<lambda>contents v.
          andThen (format_indent e (Some contents) v) (\<lambda>v. Inr (set_sawDT True v))) w = Inr v'"
    by (auto simp: visitDT_def andThen_eq_Inr)
  from w have "lang_frame v w"
    by (auto simp: andThen_eq_Inr split: if_splits dest!: format_ops_lang)
  moreover from collect_lang[OF assms(1) k c] have "lang_frame w v'" .
  ultimately show ?thesis by (rule lang_frame_trans)
qed

lemma write_math_lang: "write_math math display v = Inr v' \<Longrightarrow> lang_frame v v'"
  by (auto simp: write_math_def andThen_eq_Inr Let_def split: if_splits
      dest!: format_ops_lang)

lemma visitTYPEOF_math_lang:
  "visitTYPEOF_math e node display v = Inr v' \<Longrightarrow> lang_frame v v'"
  by (auto simp: visitTYPEOF_math_def andThen_eq_Inr Let_def
      split: option.splits dest: write_math_lang)

lemma dl_math_lang: "dl_math e dds v = Inr v' \<Longrightarrow> lang_frame v v'"
proof (induction dds arbitrary: v)
  case Nil then show ?case by simp
next
  case (Cons dd dds)
  then show ?case
    by (auto simp: andThen_eq_Inr split: list.splits
        dest!: visitTYPEOF_math_lang intro: lang_frame_trans)
qed

lemma visitDL_lang: "keeps_lang vc \<Longrightarrow> visitDL e node vc v = Inr v' \<Longrightarrow> lang_frame v v'"
  unfolding visitDL_def Let_def
  by (auto simp: andThen_eq_Inr split: if_splits prod.splits
      dest!: format_ops_lang keeps_langD dl_math_lang intro: lang_frame_trans)

lemma visitMultipleImage_lang:
  "visitMultipleImage e hp node v = Inr v' \<Longrightarrow> lang_frame v v'"
  by (auto simp: visitMultipleImage_def Let_def split: if_splits option.splits)

lemma visitDIV_lang: "keeps_lang vc \<Longrightarrow> visitDIV e hp node vc v = Inr v' \<Longrightarrow> lang_frame v v'"
  unfolding visitDIV_def
  by (auto simp: andThen_eq_Inr split: if_splits
      dest!: format_ops_lang keeps_langD visitMultipleImage_lang intro: lang_frame_trans)

lemma call_method_lang:
  assumes "keeps_lang vc" and "keeps_lang vrefs"
    and "call_method e hp m node vc vrefs v = Inr v'"
  shows "lang_frame v v'"
  using assms(3)
  by (cases m)
    (auto simp: call_method_def split: if_splits sum.splits
      dest: keeps_langD[OF assms(1)] keeps_langD[OF assms(2)]
        visitP_lang[OF assms(1)] visitSUB_lang[OF assms(1)] visitSUP_lang[OF assms(1)]
        visitCENTER_lang[OF assms(1)] visitHn_lang[OF assms(1)]
        visitREL_dc_references_lang[OF assms(1)] visitOL_lang[OF assms(1)]
        visitLI_lang[OF assms(1)] visitDL_lang[OF assms(1)] visitDT_lang[OF assms(1)]
        visitDD_lang[OF assms(1)] visitBLOCKQUOTE_lang[OF assms(1)]
        visitDIV_lang[OF assms(1)] visitTYPEOF_math_lang visitMultipleImage_lang
        format_ops_lang)

lemma visitLANG_lang:
  assumes "\<And>w r. currentLanguage w = getAttribute node (js ''lang'') \<Longrightarrow>
                 visit_node w = Inr r \<Longrightarrow> lang_frame w r"
    and "visitLANG e node visit_node v = Inr v'"
  shows "lang_frame v v'"
proof -
  from assms(2) obtain d r where
    r: "visit_node (v\<lparr> currentLanguage := getAttribute node (js ''lang''),
                        currentDirectionality := d \<rparr>) = Inr r"
    and v': "v' = r\<lparr> currentLanguage := currentLanguage v,
                      currentDirectionality := currentDirectionality v \<rparr>"
    by (auto simp: visitLANG_def Let_def andThen_eq_Inr split: sum.splits)
  from assms(1)[OF _ r] show ?thesis
    by (auto simp: lang_frame_def v')
qed

lemma visitDIR_lang:
  assumes "\<And>w r. currentLanguage w = currentLanguage v \<Longrightarrow>
                 currentDirectionality w = getAttribute node (js ''dir'') \<Longrightarrow>
                 visit_node w = Inr r \<Longrightarrow> lang_frame w r"
    and "visitDIR node visit_node v = Inr v'"
  shows "lang_frame v v'"
proof -
  let ?v = "v\<lparr> world := (world v)\<lparr> console := console (world v) @
                   [NonStandardDir (currentLanguage v) (currentDirectionality v)
                      (getAttribute node (js ''dir''))] \<rparr> \<rparr>"
  from assms(2) obtain r where
    r: "visit_node (?v\<lparr> currentDirectionality := getAttribute node (js ''dir'') \<rparr>) = Inr r"
    and v': "v' = r\<lparr> currentDirectionality := currentDirectionality v \<rparr>"
    by (auto simp: visitDIR_def Let_def andThen_eq_Inr)
  from assms(1)[OF _ _ r] show ?thesis
    by (auto simp: lang_frame_def v')
qed

lemma visit_lang_frame:
  "visit e hp node v = Inr v' \<Longrightarrow> lang_frame v v'"
  "visitChildren e cs v = Inr v' \<Longrightarrow> lang_frame v v'"
  "visitReferences e i cs v = Inr v' \<Longrightarrow> lang_frame v v'"
proof (induction e hp node v and e cs v and e i cs v arbitrary: v' and v' and v'
    rule: visit_visitChildren_visitReferences.induct)
  case (1 e hasParent d v)
  then show ?case using visit_text_lang[of v d] by auto
next
  case (2 e hasParent v)
  then show ?case by simp
next
  case (3 e hasParent name attrs cs v)
  let ?node = "Element name attrs cs"
  show ?case
  proof (cases "isHidden e ?node")
    case True
    with "3.prems" show ?thesis by (simp add: visit_hidden)
  next
    case nh: False
    show ?thesis
    proof (cases "declared_lang ?node v \<noteq> currentLanguage v")
      case True
      let ?v = "v\<lparr> usedLanguages := insert (declared_lang ?node v) (usedLanguages v) \<rparr>"
      from "3.prems" nh True
      have "visitLANG e ?node (visit e hasParent ?node) ?v = Inr v'"
        by (simp add: visit_language)
      from visitLANG_lang[OF _ this] "3.IH"(1)[OF refl nh True]
      have "lang_frame ?v v'" by blast
      then show ?thesis by (auto simp: lang_frame_def)
    next
      case nl: False
      show ?thesis
      proof (cases "declared_dir ?node v \<noteq> currentDirectionality v")
        case True
        from "3.prems" nh nl True
        have "visitDIR ?node (visit e hasParent ?node) v = Inr v'"
          by (simp add: visit_direction)
        from visitDIR_lang[OF _ this] "3.IH"(2)[OF refl nh nl True]
        show ?thesis by blast
      next
        case nd: False
        show ?thesis
        proof (cases "find_method ?node")
          case None
          with "3.prems" nh nl nd have "visitChildren e cs v = Inr v'"
            by (simp add: visit_flatten)
          from "3.IH"(3)[OF refl nh nl nd None this] show ?thesis .
        next
          case (Some m)
          with "3.prems" nh nl nd
          have c: "call_method e hasParent m ?node
                  (visitChildren e cs) (visitReferences e 0 cs) v = Inr v'"
            by (simp add: visit_method)
          have k1: "keeps_lang (visitChildren e cs)"
            unfolding keeps_lang_def using "3.IH"(4)[OF refl nh nl nd Some] by blast
          have k2: "keeps_lang (visitReferences e 0 cs)"
            unfolding keeps_lang_def using "3.IH"(5)[OF refl nh nl nd Some] by blast
          from call_method_lang[OF k1 k2 c] show ?thesis .
        qed
      qed
    qed
  qed
next
  case (4 e v)
  then show ?case by simp
next
  case (5 e c cs v)
  from "5.prems" obtain w where w: "visit e True c v = Inr w" and r: "visitChildren e cs w = Inr v'"
    by (auto simp: andThen_eq_Inr)
  from "5.IH"(1)[OF w] "5.IH"(2)[OF w r] show ?case by (rule lang_frame_trans)
next
  case (6 e i v)
  then show ?case by simp
next
  case (7 e i ref refs v)
  let ?name = "textEscape ([0x5B] @ number_text (Some (i + 1)) @ [0x5D])"
  from "7.prems" obtain a c d where a: "format_indent e (Some ?name) v = Inr a"
    and c: "visitChildren e (childNodes ref) a = Inr c"
    and d: "format_dedent c = Inr d"
    and r: "visitReferences e (i + 1) refs d = Inr v'"
    by (auto simp: andThen_eq_Inr Let_def)
  have "lang_frame v a" using a by (rule format_ops_lang)
  moreover have "lang_frame a c" using "7.IH"(1)[OF refl a c] .
  moreover have "lang_frame c d" using d by (rule format_ops_lang)
  moreover have "lang_frame d v'" using "7.IH"(2)[OF refl a c d r] .
  ultimately show ?case by (blast intro: lang_frame_trans)
qed

section \<open>The order of the classification\<close>

lemma isHidden_hidden_content:
  "isHidden e node \<longleftrightarrow> hidden_content node \<and> \<not> isMultipleImageTemplate e node"
  by (auto simp: isHidden_def hidden_content_def)

lemma declared_lang_differs:
  "declared_lang node v \<noteq> currentLanguage v \<longleftrightarrow>
   truthy (getAttribute node (js ''lang'')) \<and> getAttribute node (js ''lang'') \<noteq> currentLanguage v"
  by (auto simp: declared_lang_def)

lemma declared_dir_differs:
  "declared_dir node v \<noteq> currentDirectionality v \<longleftrightarrow>
   truthy (getAttribute node (js ''dir'')) \<and>
   getAttribute node (js ''dir'') \<noteq> Some (js ''auto'') \<and>
   getAttribute node (js ''dir'') \<noteq> currentDirectionality v"
  by (auto simp: declared_dir_def Let_def)

lemma declared_lang_attribute:
  "declared_lang node v \<noteq> currentLanguage v \<Longrightarrow>
   declared_lang node v = getAttribute node (js ''lang'')"
  by (auto simp: declared_lang_def split: if_splits)

text \<open>
  Claim C8.  \<^verbatim>\<open>visit\<close> on an element does what the one class of the element says,
  the class being the first that applies in the order of priority: a hidden
  element is skipped; then the language handler, the direction handler, the method
  of the \<^verbatim>\<open>typeof\<close> attribute, of the \<^verbatim>\<open>rel\<close> attribute, of the tag name; and an
  element of no class has its children visited, nothing more and nothing less.  (An
  empty \<^verbatim>\<open>lang\<close> or \<^verbatim>\<open>dir\<close> attribute counts as absent, as \<^verbatim>\<open>||\<close> makes it.)
\<close>

theorem visit_classification:
  "visit e hp (Element name attrs cs) v =
     (case classify e (Element name attrs cs) v of
        Skip \<Rightarrow> Inr v
      | Language \<Rightarrow>
          visitLANG e (Element name attrs cs) (visit e hp (Element name attrs cs))
            (v\<lparr> usedLanguages :=
                 insert (getAttribute (Element name attrs cs) (js ''lang'')) (usedLanguages v) \<rparr>)
      | Direction \<Rightarrow>
          visitDIR (Element name attrs cs) (visit e hp (Element name attrs cs)) v
      | ByTypeof m \<Rightarrow>
          call_method e hp m (Element name attrs cs)
            (visitChildren e cs) (visitReferences e 0 cs) v
      | ByRel m \<Rightarrow>
          call_method e hp m (Element name attrs cs)
            (visitChildren e cs) (visitReferences e 0 cs) v
      | ByTag m \<Rightarrow>
          call_method e hp m (Element name attrs cs)
            (visitChildren e cs) (visitReferences e 0 cs) v
      | Flatten \<Rightarrow> visitChildren e cs v)"
proof -
  let ?node = "Element name attrs cs"
  show ?thesis
  proof (cases "isHidden e ?node")
    case True
    then show ?thesis
      by (simp add: visit_hidden classify_def isHidden_hidden_content)
  next
    case nh: False
    then have c0: "\<not> (hidden_content ?node \<and> \<not> isMultipleImageTemplate e ?node)"
      by (simp add: isHidden_hidden_content)
    show ?thesis
    proof (cases "declared_lang ?node v \<noteq> currentLanguage v")
      case True
      then have "classify e ?node v = Language"
        using c0 by (simp add: classify_def declared_lang_differs del: getAttribute.simps)
      then show ?thesis
        using visit_language[OF nh True, of hp] declared_lang_attribute[OF True]
        by (simp del: getAttribute.simps)
    next
      case nl: False
      then have c1: "\<not> (truthy (getAttribute ?node (js ''lang'')) \<and>
              getAttribute ?node (js ''lang'') \<noteq> currentLanguage v)"
        by (simp add: declared_lang_differs del: getAttribute.simps)
      show ?thesis
      proof (cases "declared_dir ?node v \<noteq> currentDirectionality v")
        case True
        then have "classify e ?node v = Direction"
          using c0 c1 by (simp add: classify_def declared_dir_differs del: getAttribute.simps)
        then show ?thesis
          using visit_direction[OF nh _ True, of hp] nl
          by (simp del: getAttribute.simps)
      next
        case nd: False
        then have c2: "\<not> (truthy (getAttribute ?node (js ''dir'')) \<and>
              getAttribute ?node (js ''dir'') \<noteq> Some (js ''auto'') \<and>
              getAttribute ?node (js ''dir'') \<noteq> currentDirectionality v)"
          by (simp add: declared_dir_differs del: getAttribute.simps)
        have cl: "classify e ?node v =
            (case typeof_method ?node of
               Some m \<Rightarrow> ByTypeof m
             | None \<Rightarrow>
                 (case rel_method ?node of
                    Some m \<Rightarrow> ByRel m
                  | None \<Rightarrow>
                      (case tag_method ?node of
                         Some m \<Rightarrow> ByTag m
                       | None \<Rightarrow> Flatten)))"
          using c0 c1 c2 unfolding classify_def by (simp only: if_False)
        show ?thesis
        proof (cases "find_method ?node")
          case None
          then have "typeof_method ?node = None" "rel_method ?node = None" "tag_method ?node = None"
            by (auto simp: find_method_def split: option.splits)
          with cl show ?thesis
            using visit_flatten[OF nh _ _ None, of v hp] nl nd
            by (simp del: getAttribute.simps)
        next
          case (Some m)
          then have "classify e ?node v = ByTypeof m \<or> classify e ?node v = ByRel m \<or>
                     classify e ?node v = ByTag m"
            unfolding cl by (auto simp: find_method_def split: option.splits)
          then show ?thesis
            using visit_method[OF nh _ _ Some, of v hp] nl nd
            by (auto simp del: getAttribute.simps)
        qed
      qed
    qed
  qed
qed

lemma demo_classes:
  "classify demo_env demo_hidden demo_visitor = Skip"
  "classify demo_env demo_unknown demo_visitor = Flatten"
  "classify demo_env demo_span demo_visitor = Language"
  by code_simp+

lemma demo_unknown_flattened:
  "map_sum id (\<lambda>v. sink_buffer (format v))
     (visitChildren demo_env [Element (js ''I'') [] [Text (js ''un'')], Text (js ''known'')]
        demo_visitor) = Inr [js ''un'', js ''known'']"
  by code_simp

theorem visit_classification_witness:
  "classify demo_env demo_unknown demo_visitor = Flatten \<and>
   map_sum id (\<lambda>v. sink_buffer (format v)) (visit demo_env True demo_unknown demo_visitor) =
     Inr [js ''un'', js ''known''] \<and>
   classify demo_env demo_hidden demo_visitor = Skip \<and>
   map_sum id (\<lambda>v. sink_buffer (format v)) (visit demo_env True demo_hidden demo_visitor) =
     Inr []"
proof -
  have u: "visit demo_env True demo_unknown demo_visitor =
      visitChildren demo_env [Element (js ''I'') [] [Text (js ''un'')], Text (js ''known'')]
        demo_visitor"
    using visit_classification[of demo_env True "js ''SPAN''" "[]"
        "[Element (js ''I'') [] [Text (js ''un'')], Text (js ''known'')]" demo_visitor]
      demo_classes(2)
    by (simp add: demo_unknown_def)
  have h: "visit demo_env True demo_hidden demo_visitor = Inr demo_visitor"
    using visit_classification[of demo_env True "js ''SPAN''" "[(js ''class'', js ''noprint'')]"
        "[Text (js ''hidden'')]" demo_visitor]
      demo_classes(1)
    by (simp add: demo_hidden_def)
  have b: "sink_buffer (format demo_visitor) = []"
    by (simp add: demo_visitor_def Visitor_def sink_buffer_def Formatter_def Let_def)
  show ?thesis
    using demo_classes(1,2) demo_unknown_flattened by (simp add: u h b)
qed

lemma visit_language_used:
  assumes "visit e hp (Element name attrs cs) v = Inr v'"
    and "\<not> isHidden e (Element name attrs cs)"
    and "declared_lang (Element name attrs cs) v \<noteq> currentLanguage v"
  shows "declared_lang (Element name attrs cs) v \<in> usedLanguages v'"
proof -
  let ?node = "Element name attrs cs"
  let ?v = "v\<lparr> usedLanguages := insert (declared_lang ?node v) (usedLanguages v) \<rparr>"
  from assms have "visitLANG e ?node (visit e hp ?node) ?v = Inr v'"
    by (simp add: visit_language)
  from visitLANG_lang[OF _ this] visit_lang_frame(1) have "lang_frame ?v v'" by blast
  then show ?thesis by (auto simp: lang_frame_def)
qed

text \<open>
  Claim C9.  When the visit of a node returns, the current language and the current
  direction are what they were before it, whatever the node declares, so what
  follows the node is visited in the language and direction of before; of the
  fields that describe languages only \<open>usedLanguages\<close> changes, and it only grows: it
  holds the language that an element that is not hidden declares, when it differs
  from the current one.
\<close>

theorem language_switch_scoped:
  assumes "visit e hp node v = Inr v'"
  shows "currentLanguage v' = currentLanguage v \<and>
         currentDirectionality v' = currentDirectionality v \<and>
         tocLanguage v' = tocLanguage v \<and>
         usedLanguages v \<subseteq> usedLanguages v' \<and>
         (is_element node \<and> \<not> isHidden e node \<and> declared_lang node v \<noteq> currentLanguage v
            \<longrightarrow> declared_lang node v \<in> usedLanguages v')"
proof -
  from visit_lang_frame(1)[OF assms] have "lang_frame v v'" .
  moreover have "is_element node \<and> \<not> isHidden e node \<and> declared_lang node v \<noteq> currentLanguage v
            \<longrightarrow> declared_lang node v \<in> usedLanguages v'"
    using assms visit_language_used by (cases node) auto
  ultimately show ?thesis by (simp add: lang_frame_def)
qed

lemma demo_span_returns: "\<not> isl (visit demo_env True demo_span demo_visitor)"
  by code_simp

lemma demo_span_declares:
  "is_element demo_span \<and> \<not> isHidden demo_env demo_span \<and>
   declared_lang demo_span demo_visitor = Some (js ''fr'') \<and>
   currentLanguage demo_visitor = Some (js ''en'') \<and>
   currentDirectionality demo_visitor = Some (js ''ltr'')"
  by code_simp

theorem language_switch_scoped_witness:
  "visit demo_env True demo_span demo_visitor =
     Inr (projr (visit demo_env True demo_span demo_visitor)) \<and>
   currentLanguage (projr (visit demo_env True demo_span demo_visitor)) = Some (js ''en'') \<and>
   currentDirectionality (projr (visit demo_env True demo_span demo_visitor)) = Some (js ''ltr'') \<and>
   Some (js ''fr'') \<in> usedLanguages (projr (visit demo_env True demo_span demo_visitor))"
proof -
  have r: "visit demo_env True demo_span demo_visitor =
     Inr (projr (visit demo_env True demo_span demo_visitor))"
    using demo_span_returns by simp
  have ne: "Some (js ''fr'') \<noteq> Some (js ''en'')" by (simp add: js_def)
  from language_switch_scoped[OF r] demo_span_declares ne show ?thesis
    using r by simp
qed


section \<open>Subscripts and superscripts\<close>

lemma collapse_space_no_CR: "CR \<notin> set (collapse_space t)"
proof (induction t rule: collapse_space.induct)
  case 1 then show ?case by simp
next
  case (2 c cs)
  then show ?case by (auto simp: is_space_def)
qed

lemma no_LF_no_run: "LF \<notin> set s \<Longrightarrow> \<not> has_newline_run s"
  by (induction s rule: has_newline_run.induct) auto

lemma textEscape_one_line:
  assumes "CR \<notin> set s" and "LF \<notin> set s"
  shows "textEscape s = map plain_quote s"
proof -
  have "replace_crlf s = s" using assms(1) by (rule replace_crlf_id)
  moreover have "compress_newlines s = s"
    using assms(2) by (intro compress_newlines_id no_LF_no_run)
  moreover have "trim_leading_newlines s = s"
    using assms(2) by (cases s) (auto simp: trim_leading_newlines_def)
  moreover have "trim_trailing_newline s = s"
  proof -
    have "s \<noteq> [] \<Longrightarrow> last s \<noteq> LF"
      using assms(2) last_in_set[of s] by metis
    then show ?thesis by (auto simp: trim_trailing_newline_def)
  qed
  ultimately show ?thesis
    by (simp add: textEscape_def Let_def plain_quote_def)
qed

lemma translit_keys:
  "list_all (\<lambda>c. map_of m c \<noteq> None) s \<Longrightarrow> translit m s = map (script_char m) s"
  by (induction s) (auto simp: translit_def script_char_def)

lemma write_script_text:
  "write_script m (collapse_space t) v =
     Inr (format_write (script_text m (collapse_space t)) v)"
  by (simp add: write_script_def table_test_def script_text_def translit_keys
      textEscape_one_line collapse_space_no_CR collapse_space_no_LF)

lemma collect_write_script:
  "collect vc (write_script m) v =
     andThen (vc (v\<lparr> format := new_collector \<rparr>))
       (\<lambda>r. Inr (format_write (script_text m (flattened r)) (r\<lparr> format := format v \<rparr>)))"
  by (simp add: collect_def Let_def new_collector_def flattened_def write_script_text)

text \<open>
  Claim C7, as amended.  A \<^verbatim>\<open>SUB\<close> element, and a \<^verbatim>\<open>SUP\<close> element unless the option
  \<^verbatim>\<open>noRefs\<close> is set and it has the class \<^verbatim>\<open>Template-Fact\<close>, visits its children into
  a new collector and writes to the sink of before the text \<open>script_text\<close> of what
  was collected: transliterated character by character exactly when the flattened
  text is not empty and all its characters are keys of the table, and otherwise
  the flattened text with smart quotes made plain.  Either way the text written
  has the length of the flattened text.  The excepted \<^verbatim>\<open>SUP\<close> element writes
  nothing.
\<close>

theorem script_text_written:
  "visitSUB vc v =
     andThen (vc (v\<lparr> format := new_collector \<rparr>))
       (\<lambda>r. Inr (format_write (script_text submap (flattened r)) (r\<lparr> format := format v \<rparr>)))
   \<and> visitSUP node vc v =
     (if noRefs (voptions v) \<and> classList_contains node (js ''Template-Fact'') then Inr v
      else andThen (vc (v\<lparr> format := new_collector \<rparr>))
             (\<lambda>r. Inr (format_write (script_text supmap (flattened r))
                         (r\<lparr> format := format v \<rparr>))))
   \<and> length (script_text m contents) = length contents"
  by (simp add: visitSUB_def visitSUP_def collect_write_script script_text_def)

lemma demo_scripts:
  "map_sum id (\<lambda>v. sink_buffer (format v)) (visit demo_env True demo_sub demo_visitor) =
     Inr [[0x2082]]"
  "map_sum id (\<lambda>v. sink_buffer (format v)) (visit demo_env True demo_sup demo_visitor) =
     Inr [js ''n-1'' @ [0x22]]"
  "map_sum id (\<lambda>v. sink_buffer (format v)) (visit demo_env True demo_fact demo_visitor) =
     Inr [js ''citation needed'']"
  by code_simp+

theorem script_text_written_witness:
  "map_sum id (\<lambda>v. sink_buffer (format v))
     (visitSUP demo_fact (\<lambda>v. Inr (visit_text (js ''citation needed'') v)) demo_visitor) =
     Inr [js ''citation needed'']
   \<and> script_text submap (js ''2'') = [0x2082]
   \<and> script_text supmap (js ''n-1'' @ [0x201D]) = js ''n-1'' @ [0x22]"
proof -
  let ?vc = "\<lambda>v. Inr (visit_text (js ''citation needed'') v)"
  have g: "\<not> (noRefs (voptions demo_visitor) \<and> classList_contains demo_fact (js ''Template-Fact''))"
    by code_simp
  from script_text_written[of ?vc demo_visitor demo_fact submap "[]"] g
  have "visitSUP demo_fact ?vc demo_visitor =
      andThen (?vc (demo_visitor\<lparr> format := new_collector \<rparr>))
             (\<lambda>r. Inr (format_write (script_text supmap (flattened r))
                         (r\<lparr> format := format demo_visitor \<rparr>)))"
    by simp
  moreover have "map_sum id (\<lambda>v. sink_buffer (format v))
      (andThen (?vc (demo_visitor\<lparr> format := new_collector \<rparr>))
             (\<lambda>r. Inr (format_write (script_text supmap (flattened r))
                         (r\<lparr> format := format demo_visitor \<rparr>)))) = Inr [js ''citation needed'']"
    by code_simp
  moreover have "script_text submap (js ''2'') = [0x2082]" by code_simp
  moreover have "script_text supmap (js ''n-1'' @ [0x201D]) = js ''n-1'' @ [0x22]" by code_simp
  ultimately show ?thesis by simp
qed

text \<open>
  Claim C7 as stated fails: with the option \<^verbatim>\<open>noRefs\<close>, the \<^verbatim>\<open>SUP\<close> element of class
  \<^verbatim>\<open>Template-Fact\<close> whose text \<^verbatim>\<open>citation needed\<close> has characters outside the table
  writes nothing at all, where the same element without the option writes its text.
\<close>

theorem script_text_counterexample:
  "\<not> table_test supmap (js ''citation needed'') \<and>
   map_sum id (\<lambda>v. sink_buffer (format v)) (visit demo_env True demo_fact demo_visitor) =
     Inr [js ''citation needed''] \<and>
   map_sum id (\<lambda>v. (sink_buffer (format v), sink_emitted (format v)))
     (visit demo_env True demo_fact demo_visitor_noRefs) = Inr ([], [])"
  by code_simp


section \<open>The stack of indentation states\<close>

lemma Formatter_lineBreak_stack:
  "Formatter_lineBreak f = Inr g \<Longrightarrow> stateStack g = stateStack f"
  by (auto simp: Formatter_lineBreak_def split: if_splits option.splits)

lemma Formatter_paragraphBreak_stack:
  "Formatter_paragraphBreak f = Inr g \<Longrightarrow> stateStack g = stateStack f"
  by (auto simp: Formatter_paragraphBreak_def andThen_eq_Inr split: if_splits
      dest: Formatter_lineBreak_stack)

lemma Formatter_write_stack [simp]: "stateStack (Formatter_write t f) = stateStack f"
  by (simp add: Formatter_write_def Let_def)

lemma Formatter_writeHeading_stack:
  "Formatter_writeHeading h f = Inr g \<Longrightarrow> stateStack g = stateStack f"
  by (auto simp: Formatter_writeHeading_def andThen_eq_Inr
      dest!: Formatter_paragraphBreak_stack)

lemma Formatter_indent_stack:
  "Formatter_indent lw tag f = Inr g \<Longrightarrow> length (stateStack g) = Suc (length (stateStack f))"
  by (auto simp: Formatter_indent_def andThen_eq_Inr Let_def split: option.splits if_splits
      dest!: Formatter_lineBreak_stack)

lemma Formatter_dedent_stack:
  "Formatter_dedent f = Inr g \<Longrightarrow> length (stateStack g) = length (stateStack f) - 1"
proof -
  assume "Formatter_dedent f = Inr g"
  then obtain x where x: "Formatter_lineBreak f = Inr x"
    and g: "g = (case stateStack x of
                   [] \<Rightarrow> x\<lparr> state := None \<rparr>
                 | st # rest \<Rightarrow> x\<lparr> state := Some st, stateStack := rest \<rparr>)"
    by (auto simp: Formatter_dedent_def andThen_eq_Inr)
  from Formatter_lineBreak_stack[OF x] g show ?thesis
    by (auto split: list.splits)
qed

lemma indent_depth_simps [simp]:
  "indent_depth (Layout f) = length (stateStack f)"
  "indent_depth (Collect c) = 0"
  "is_layout (Layout f)"
  "\<not> is_layout (Collect c)"
  by (simp_all add: indent_depth_def is_layout_def)

lemma not_layout_depth: "\<not> is_layout s \<Longrightarrow> indent_depth s = 0"
  by (cases s) simp_all

lemma sink_write_depth [simp]:
  "indent_depth (sink_write t s) = indent_depth s"
  "is_layout (sink_write t s) = is_layout s"
  by (cases s; simp add: sink_write_def)+

lemma sink_lineBreak_depth:
  "sink_lineBreak s = Inr s' \<Longrightarrow> indent_depth s' = indent_depth s \<and> is_layout s' = is_layout s"
  by (cases s) (auto simp: sink_lineBreak_def andThen_eq_Inr dest!: Formatter_lineBreak_stack)

lemma sink_paragraphBreak_depth:
  "sink_paragraphBreak s = Inr s' \<Longrightarrow>
     indent_depth s' = indent_depth s \<and> is_layout s' = is_layout s"
  by (cases s)
    (auto simp: sink_paragraphBreak_def andThen_eq_Inr dest!: Formatter_paragraphBreak_stack)

lemma sink_writeHeading_depth:
  "sink_writeHeading h s = Inr s' \<Longrightarrow>
     indent_depth s' = indent_depth s \<and> is_layout s' = is_layout s"
  by (cases s)
    (auto simp: sink_writeHeading_def andThen_eq_Inr dest!: Formatter_writeHeading_stack)

lemma sink_indent_depth:
  "sink_indent lw tag s = Inr s' \<Longrightarrow>
     indent_depth s' = (if is_layout s then Suc (indent_depth s) else 0) \<and>
     is_layout s' = is_layout s"
  by (cases s) (auto simp: sink_indent_def andThen_eq_Inr dest!: Formatter_indent_stack)

lemma sink_dedent_depth:
  "sink_dedent s = Inr s' \<Longrightarrow>
     indent_depth s' = indent_depth s - 1 \<and> is_layout s' = is_layout s"
  by (cases s) (auto simp: sink_dedent_def andThen_eq_Inr dest!: Formatter_dedent_stack)

lemma balanced_refl [simp]: "balanced v v"
  by (simp add: balanced_def)

lemma balanced_trans: "balanced a c \<Longrightarrow> balanced c d \<Longrightarrow> balanced a d"
  by (simp add: balanced_def)

lemma keeps_balanceD: "keeps_balance f \<Longrightarrow> f v = Inr v' \<Longrightarrow> balanced v v'"
  by (simp add: keeps_balance_def)

lemma keeps_itemsD: "keeps_items f \<Longrightarrow> f v = Inr v' \<Longrightarrow> item_step v v'"
  by (simp add: keeps_items_def)

lemma balanced_item_step: "balanced v v' \<Longrightarrow> item_step v v'"
  by (simp add: balanced_def item_step_def pending_def)

lemma item_step_trans: "item_step a c \<Longrightarrow> item_step c d \<Longrightarrow> item_step a d"
  by (auto simp: item_step_def)

lemma format_write_balanced [simp]:
  "balanced (format_write t v) w = balanced v w"
  "balanced v (format_write t w) = balanced v w"
  by (simp_all add: format_write_def balanced_def)

lemma format_ops_balanced:
  "format_lineBreak v = Inr v' \<Longrightarrow> balanced v v'"
  "format_paragraphBreak v = Inr v' \<Longrightarrow> balanced v v'"
  "format_writeHeading h v = Inr v' \<Longrightarrow> balanced v v'"
  by (auto simp: format_lineBreak_def format_paragraphBreak_def format_writeHeading_def
      andThen_eq_Inr balanced_def
      dest!: sink_lineBreak_depth sink_paragraphBreak_depth sink_writeHeading_depth)

lemma format_indent_depth:
  "format_indent e tag v = Inr v' \<Longrightarrow>
     indent_depth (format v') = (if is_layout (format v) then Suc (indent_depth (format v)) else 0) \<and>
     is_layout (format v') = is_layout (format v) \<and> listInfo v' = listInfo v"
  by (auto simp: format_indent_def andThen_eq_Inr dest!: sink_indent_depth)

lemma format_dedent_depth:
  "format_dedent v = Inr v' \<Longrightarrow>
     indent_depth (format v') = indent_depth (format v) - 1 \<and>
     is_layout (format v') = is_layout (format v) \<and> listInfo v' = listInfo v"
  by (auto simp: format_dedent_def andThen_eq_Inr dest!: sink_dedent_depth)

lemma visit_text_balanced: "balanced v (visit_text d v)"
  by (simp add: visit_text_def Let_def)

text \<open>A scope: an indent, a balanced visit, a dedent.\<close>

lemma scope_balanced:
  assumes "format_indent e tag v = Inr a" and "balanced a c" and "format_dedent c = Inr d"
  shows "balanced v d"
  using format_indent_depth[OF assms(1)] format_dedent_depth[OF assms(3)] assms(2)
    not_layout_depth[of "format v"]
  by (auto simp: balanced_def split: if_splits)

lemma collect_balanced:
  assumes "keeps_balance vc" and "\<And>t. keeps_balance (f t)" and "collect vc f v = Inr v'"
  shows "balanced v v'"
proof -
  from assms(3) obtain r where r: "vc (v\<lparr> format := Collect \<lparr> c_newLine = True, c_newPara = True, c_b = [] \<rparr> \<rparr>) = Inr r"
    and f: "f (collapse_space (concat (collected (format r)))) (r\<lparr> format := format v \<rparr>) = Inr v'"
    by (auto simp: collect_def Let_def andThen_eq_Inr)
  from keeps_balanceD[OF assms(1) r] keeps_balanceD[OF assms(2) f] show ?thesis
    by (simp add: balanced_def)
qed

lemma write_script_balanced: "keeps_balance (write_script m t)"
  by (simp add: keeps_balance_def write_script_def)

lemma visitSUB_balanced: "keeps_balance vc \<Longrightarrow> visitSUB vc v = Inr v' \<Longrightarrow> balanced v v'"
  unfolding visitSUB_def by (rule collect_balanced[OF _ write_script_balanced])

lemma visitSUP_balanced:
  "keeps_balance vc \<Longrightarrow> visitSUP node vc v = Inr v' \<Longrightarrow> balanced v v'"
  unfolding visitSUP_def
  by (auto split: if_splits intro: collect_balanced[OF _ write_script_balanced])

lemma visitP_balanced: "keeps_balance vc \<Longrightarrow> visitP vc v = Inr v' \<Longrightarrow> balanced v v'"
  unfolding visitP_def
  by (auto simp: andThen_eq_Inr dest!: format_ops_balanced keeps_balanceD
      intro: balanced_trans)

lemma visitCENTER_balanced:
  "keeps_balance vc \<Longrightarrow> visitCENTER vc v = Inr v' \<Longrightarrow> balanced v v'"
  unfolding visitCENTER_def
  by (auto simp: andThen_eq_Inr dest!: format_ops_balanced keeps_balanceD
      intro: balanced_trans)

lemma visitHn_balanced: "keeps_balance vc \<Longrightarrow> visitHn n vc v = Inr v' \<Longrightarrow> balanced v v'"
  unfolding visitHn_def Let_def
  by (auto split: if_splits intro!: collect_balanced[of vc format_writeHeading]
      simp: keeps_balance_def format_ops_balanced)

lemma visitREL_dc_references_balanced:
  assumes "keeps_balance vc" and "visitREL_dc_references node vc v = Inr v'"
  shows "balanced v v'"
proof (cases "noRefs (voptions v)")
  case True
  with assms(2) show ?thesis by (simp add: visitREL_dc_references_def)
next
  case False
  have k: "\<And>t. keeps_balance (\<lambda>v. Inr (visit_text t v))"
    by (simp add: keeps_balance_def visit_text_balanced)
  have "\<And>t. keeps_balance (\<lambda>v.
             if is_reference_mark t then
               (let textContent = butlast (tl t) @ [SP]
                in visitSUP (Element (js ''SUP'') [] [Text textContent])
                     (\<lambda>v. Inr (visit_text textContent v)) v)
             else visitSUP node vc v)"
    unfolding keeps_balance_def Let_def
    using visitSUP_balanced[OF k] visitSUP_balanced[OF assms(1)] by (auto split: if_splits)
  from collect_balanced[OF assms(1) this] assms(2) False show ?thesis
    by (simp add: visitREL_dc_references_def)
qed

lemma visitOL_balanced:
  "keeps_balance vc \<Longrightarrow> visitOL e node vc v = Inr v' \<Longrightarrow> balanced v v'"
  unfolding visitOL_def Let_def
  by (auto simp: andThen_eq_Inr balanced_def split: if_splits dest!: keeps_balanceD)

lemma visitLI_balanced:
  assumes "keeps_balance vc" and "visitLI e vc v = Inr v'"
  shows "balanced v v'"
proof -
  from assms(2) obtain tag a c where a: "format_indent e tag v = Inr a"
    and c: "vc a = Inr c" and d: "format_dedent c = Inr v'"
    by (auto simp: visitLI_def Let_def listInfo_is_string_def andThen_eq_Inr)
  from scope_balanced[OF a keeps_balanceD[OF assms(1) c] d] show ?thesis .
qed

lemma visitBLOCKQUOTE_balanced:
  assumes "keeps_balance vc" and "visitBLOCKQUOTE e vc v = Inr v'"
  shows "balanced v v'"
proof -
  from assms(2) obtain a c where a: "format_indent e None v = Inr a"
    and c: "vc a = Inr c" and d: "format_dedent c = Inr v'"
    by (auto simp: visitBLOCKQUOTE_def andThen_eq_Inr)
  from scope_balanced[OF a keeps_balanceD[OF assms(1) c] d] show ?thesis .
qed

lemma write_math_balanced: "write_math math display v = Inr v' \<Longrightarrow> balanced v v'"
  by (auto simp: write_math_def andThen_eq_Inr Let_def balanced_def format_write_def
      split: if_splits dest!: format_ops_balanced(1))

lemma visitTYPEOF_math_balanced:
  "visitTYPEOF_math e node display v = Inr v' \<Longrightarrow> balanced v v'"
  by (auto simp: visitTYPEOF_math_def andThen_eq_Inr Let_def
      split: option.splits dest: write_math_balanced)

lemma dl_math_balanced: "dl_math e dds v = Inr v' \<Longrightarrow> balanced v v'"
proof (induction dds arbitrary: v)
  case Nil then show ?case by simp
next
  case (Cons dd dds)
  then show ?case
    by (auto simp: andThen_eq_Inr split: list.splits
        dest!: visitTYPEOF_math_balanced intro: balanced_trans)
qed

lemma visitMultipleImage_balanced:
  "visitMultipleImage e hp node v = Inr v' \<Longrightarrow> balanced v v'"
  by (auto simp: visitMultipleImage_def Let_def balanced_def split: if_splits option.splits)

lemma visitDIV_balanced:
  "keeps_balance vc \<Longrightarrow> visitDIV e hp node vc v = Inr v' \<Longrightarrow> balanced v v'"
  unfolding visitDIV_def
  by (auto simp: andThen_eq_Inr split: if_splits
      dest!: format_ops_balanced keeps_balanceD visitMultipleImage_balanced
      intro: balanced_trans)

text \<open>A term closes the scope of the term before it and opens its own; a definition
  opens one when no term has.  Neither closes what it has opened.\<close>

lemma visitDT_item:
  assumes "keeps_balance vc" and "visitDT e vc v = Inr v'"
  shows "item_step v v'"
proof -
  from assms(2) obtain w where w: "(if sawDT (listInfo v)
              then andThen (format_dedent v) (\<lambda>v. Inr (set_sawDT False v))
              else Inr v) = Inr w"
    and c: "collect vc (\<lambda>contents v.
          andThen (format_indent e (Some contents) v) (\<lambda>v. Inr (set_sawDT True v))) w = Inr v'"
    by (auto simp: visitDT_def andThen_eq_Inr)
  from c obtain r t a where r: "vc (w\<lparr> format := Collect \<lparr> c_newLine = True, c_newPara = True, c_b = [] \<rparr> \<rparr>) = Inr r"
    and a: "format_indent e (Some t) (r\<lparr> format := format w \<rparr>) = Inr a"
    and v': "v' = set_sawDT True a"
    by (auto simp: collect_def Let_def andThen_eq_Inr)
  note da = format_indent_depth[OF a]
  show ?thesis
  proof (cases "sawDT (listInfo v)")
    case True
    with w obtain b where b: "format_dedent v = Inr b" and wb: "w = set_sawDT False b"
      by (auto simp: andThen_eq_Inr)
    from format_dedent_depth[OF b] da True not_layout_depth[of "format v"] show ?thesis
      by (auto simp: item_step_def pending_def v' wb set_sawDT_def split: if_splits)
  next
    case False
    with w have "w = v" by simp
    with da False not_layout_depth[of "format v"] show ?thesis
      by (auto simp: item_step_def pending_def v' set_sawDT_def split: if_splits)
  qed
qed

lemma visitDD_item:
  assumes "keeps_balance vc" and "visitDD e vc v = Inr v'"
  shows "item_step v v'"
proof -
  from assms(2) obtain w where w: "(if \<not> sawDT (listInfo v)
              then andThen (format_indent e None v) (\<lambda>v. Inr (set_sawDT True v))
              else Inr v) = Inr w"
    and c: "vc w = Inr v'"
    by (auto simp: visitDD_def andThen_eq_Inr)
  have "item_step v w"
  proof (cases "sawDT (listInfo v)")
    case True
    with w have "w = v" by simp
    then show ?thesis by (simp add: balanced_item_step)
  next
    case False
    with w obtain a where a: "format_indent e None v = Inr a" and wa: "w = set_sawDT True a"
      by (auto simp: andThen_eq_Inr)
    from format_indent_depth[OF a] False not_layout_depth[of "format v"] show ?thesis
      by (auto simp: item_step_def pending_def wa set_sawDT_def split: if_splits)
  qed
  moreover from keeps_balanceD[OF assms(1) c] have "item_step w v'"
    by (rule balanced_item_step)
  ultimately show ?thesis by (rule item_step_trans)
qed

text \<open>The list closes the scope that its last term or definition has left open.\<close>

lemma visitDL_balanced:
  assumes "keeps_items vc" and "visitDL e node vc v = Inr v'"
  shows "balanced v v'"
proof (cases "first_child e node")
  case False
  with assms(2) show ?thesis by (simp add: visitDL_def)
next
  case fc: True
  obtain s m where sm: "dl_scan (element_children node) True = (s, m)"
    by (cases "dl_scan (element_children node) True")
  show ?thesis
  proof (cases "m \<and> \<not> s")
    case True
    with assms(2) fc sm have "dl_math e (element_children node) v = Inr v'"
      by (simp add: visitDL_def)
    then show ?thesis by (rule dl_math_balanced)
  next
    case False
    let ?L = "\<lparr> li_type = Some (if s then nodeName node else js ''BLOCKQUOTE''),
               num = Some 0, depth = depth (listInfo v) + 1, sawDT = False \<rparr>"
    from assms(2) fc sm False obtain r w where r: "vc (v\<lparr> listInfo := ?L \<rparr>) = Inr r"
      and w: "(if sawDT (listInfo r) then format_dedent r else Inr r) = Inr w"
      and v': "v' = w\<lparr> listInfo := listInfo v \<rparr>"
      by (auto simp: visitDL_def Let_def andThen_eq_Inr)
    from keeps_itemsD[OF assms(1) r]
    have step: "is_layout (format r) = is_layout (format v)"
      "pending r \<le> indent_depth (format r)"
      "indent_depth (format r) = indent_depth (format v) + pending r"
      by (simp_all add: item_step_def pending_def)
    show ?thesis
    proof (cases "sawDT (listInfo r)")
      case True
      with w have "format_dedent r = Inr w" by simp
      from format_dedent_depth[OF this] step True not_layout_depth[of "format v"]
      show ?thesis
        by (auto simp: balanced_def v' pending_def split: if_splits)
    next
      case False
      with w have "w = r" by simp
      with step False show ?thesis
        by (simp add: balanced_def v' pending_def)
    qed
  qed
qed

lemma call_method_balanced:
  assumes "m \<noteq> M_DT" and "m \<noteq> M_DD"
    and "m \<noteq> M_DL \<Longrightarrow> m \<noteq> M_TYPEOF_references \<Longrightarrow> keeps_balance vc"
    and "m = M_DL \<Longrightarrow> keeps_items vc"
    and "m = M_TYPEOF_references \<Longrightarrow> keeps_balance vrefs"
    and "call_method e hp m node vc vrefs v = Inr v'"
  shows "balanced v v'"
  using assms
  by (cases m)
    (auto simp: call_method_def split: if_splits sum.splits
      dest: keeps_balanceD
        visitP_balanced[rotated] visitSUB_balanced[rotated] visitSUP_balanced[rotated]
        visitCENTER_balanced[rotated] visitHn_balanced[rotated]
        visitREL_dc_references_balanced[rotated] visitOL_balanced[rotated]
        visitLI_balanced[rotated] visitDL_balanced[rotated]
        visitBLOCKQUOTE_balanced[rotated]
        visitDIV_balanced[rotated] visitTYPEOF_math_balanced visitMultipleImage_balanced
        format_ops_balanced)

lemma list_items_Cons: "list_items (c # cs) = (list_items [c] \<and> list_items cs)"
  by (cases c) simp_all

lemma reference_items_Cons:
  "reference_items (ref # refs) = (well_nested_all (childNodes ref) \<and> reference_items refs)"
  by (cases ref) simp_all

lemma balanced_frame:
  assumes "format a' = format a" and "listInfo a' = listInfo a"
    and "format b' = format b" and "listInfo b' = listInfo b"
  shows "balanced a' b' = balanced a b" and "item_step a' b' = item_step a b"
  using assms by (simp_all add: balanced_def item_step_def pending_def)

lemma visit_balance:
  "visit e hp node v = Inr v' \<Longrightarrow>
     (well_nested node \<longrightarrow> balanced v v') \<and> (list_items [node] \<longrightarrow> item_step v v')"
  "visitChildren e cs v = Inr v' \<Longrightarrow>
     (well_nested_all cs \<longrightarrow> balanced v v') \<and> (list_items cs \<longrightarrow> item_step v v')"
  "visitReferences e i cs v = Inr v' \<Longrightarrow> reference_items cs \<longrightarrow> balanced v v'"
proof (induction e hp node v and e cs v and e i cs v arbitrary: v' and v' and v'
    rule: visit_visitChildren_visitReferences.induct)
  case (1 e hasParent d v)
  then show ?case using visit_text_balanced[of v d] by (auto simp: balanced_item_step)
next
  case (2 e hasParent v)
  then show ?case by (auto simp: balanced_item_step)
next
  case (3 e hasParent name attrs cs v)
  let ?node = "Element name attrs cs"
  show ?case
  proof (cases "isHidden e ?node")
    case True
    with "3.prems" show ?thesis by (simp add: visit_hidden balanced_item_step)
  next
    case nh: False
    show ?thesis
    proof (cases "declared_lang ?node v \<noteq> currentLanguage v")
      case True
      let ?v = "v\<lparr> usedLanguages := insert (declared_lang ?node v) (usedLanguages v) \<rparr>"
      from "3.prems" nh True
      have "visitLANG e ?node (visit e hasParent ?node) ?v = Inr v'"
        by (simp add: visit_language)
      then obtain d r where
        r: "visit e hasParent ?node (?v\<lparr> currentLanguage := getAttribute ?node (js ''lang''),
                        currentDirectionality := d \<rparr>) = Inr r"
        and v': "v' = r\<lparr> currentLanguage := currentLanguage ?v,
                      currentDirectionality := currentDirectionality ?v \<rparr>"
        by (auto simp: visitLANG_def Let_def andThen_eq_Inr split: sum.splits)
      let ?w = "?v\<lparr> currentLanguage := getAttribute ?node (js ''lang''),
                    currentDirectionality := d \<rparr>"
      have "currentLanguage ?w = getAttribute ?node (js ''lang'')" by simp
      from "3.IH"(1)[OF refl nh True this r]
      have ih: "(well_nested ?node \<longrightarrow> balanced ?w r) \<and>
                (list_items [?node] \<longrightarrow> item_step ?w r)" .
      have eq: "balanced v v' = balanced ?w r" "item_step v v' = item_step ?w r"
        by (simp_all add: v' balanced_def item_step_def pending_def)
      show ?thesis unfolding eq using ih .
    next
      case nl: False
      show ?thesis
      proof (cases "declared_dir ?node v \<noteq> currentDirectionality v")
        case True
        let ?v = "v\<lparr> world := (world v)\<lparr> console := console (world v) @
                   [NonStandardDir (currentLanguage v) (currentDirectionality v)
                      (getAttribute ?node (js ''dir''))] \<rparr> \<rparr>"
        from "3.prems" nh nl True
        have "visitDIR ?node (visit e hasParent ?node) v = Inr v'"
          by (simp add: visit_direction)
        then obtain r where
          r: "visit e hasParent ?node
                (?v\<lparr> currentDirectionality := getAttribute ?node (js ''dir'') \<rparr>) = Inr r"
          and v': "v' = r\<lparr> currentDirectionality := currentDirectionality v \<rparr>"
          by (auto simp: visitDIR_def Let_def andThen_eq_Inr)
        let ?w = "?v\<lparr> currentDirectionality := getAttribute ?node (js ''dir'') \<rparr>"
        have "currentLanguage ?w = currentLanguage v"
          and "currentDirectionality ?w = getAttribute ?node (js ''dir'')" by simp_all
        from "3.IH"(2)[OF refl nh nl True this r]
        have ih: "(well_nested ?node \<longrightarrow> balanced ?w r) \<and>
                  (list_items [?node] \<longrightarrow> item_step ?w r)" .
        have eq: "balanced v v' = balanced ?w r" "item_step v v' = item_step ?w r"
          by (simp_all add: v' balanced_def item_step_def pending_def)
        show ?thesis unfolding eq using ih .
      next
        case nd: False
        show ?thesis
        proof (cases "find_method ?node")
          case None
          with "3.prems" nh nl nd have "visitChildren e cs v = Inr v'"
            by (simp add: visit_flatten)
          from "3.IH"(3)[OF refl nh nl nd None this] None show ?thesis
            by (auto simp: handled_by_def balanced_item_step)
        next
          case (Some m)
          with "3.prems" nh nl nd
          have c: "call_method e hasParent m ?node
                  (visitChildren e cs) (visitReferences e 0 cs) v = Inr v'"
            by (simp add: visit_method)
          have k1: "well_nested_all cs \<Longrightarrow> keeps_balance (visitChildren e cs)"
            unfolding keeps_balance_def using "3.IH"(4)[OF refl nh nl nd Some] by blast
          have k2: "list_items cs \<Longrightarrow> keeps_items (visitChildren e cs)"
            unfolding keeps_items_def using "3.IH"(4)[OF refl nh nl nd Some] by blast
          have k3: "reference_items cs \<Longrightarrow> keeps_balance (visitReferences e 0 cs)"
            unfolding keeps_balance_def using "3.IH"(5)[OF refl nh nl nd Some] by blast
          have A: "balanced v v'" if wn: "well_nested ?node"
          proof (rule call_method_balanced[OF _ _ _ _ _ c])
            from wn Some show "m \<noteq> M_DT" "m \<noteq> M_DD" by (auto simp: handled_by_def)
            from wn Some show "keeps_balance (visitChildren e cs)"
              if "m \<noteq> M_DL" "m \<noteq> M_TYPEOF_references"
              using that k1 by (auto simp: handled_by_def)
            from wn Some show "keeps_items (visitChildren e cs)" if "m = M_DL"
              using that k2 by (auto simp: handled_by_def)
            from wn Some show "keeps_balance (visitReferences e 0 cs)"
              if "m = M_TYPEOF_references"
              using that k3 by (auto simp: handled_by_def)
          qed
          have B: "item_step v v'" if li: "list_items [?node]"
          proof (cases "m = M_DT \<or> m = M_DD")
            case True
            with li Some have "well_nested_all cs" by (auto simp: handled_by_def)
            from k1[OF this] True c show ?thesis
              by (auto simp: call_method_def dest: visitDT_item visitDD_item)
          next
            case False
            with li Some have "well_nested ?node" by (auto simp: handled_by_def)
            from A[OF this] show ?thesis by (rule balanced_item_step)
          qed
          from A B show ?thesis by blast
        qed
      qed
    qed
  qed
next
  case (4 e v)
  then show ?case by (auto simp: balanced_item_step)
next
  case (5 e c cs v)
  from "5.prems" obtain w where w: "visit e True c v = Inr w" and r: "visitChildren e cs w = Inr v'"
    by (auto simp: andThen_eq_Inr)
  from "5.IH"(1)[OF w] "5.IH"(2)[OF w r] show ?case
    by (auto simp: list_items_Cons[of c cs] intro: balanced_trans item_step_trans)
next
  case (6 e i v)
  then show ?case by simp
next
  case (7 e i ref refs v)
  let ?name = "textEscape ([0x5B] @ number_text (Some (i + 1)) @ [0x5D])"
  from "7.prems" obtain a c d where a: "format_indent e (Some ?name) v = Inr a"
    and c: "visitChildren e (childNodes ref) a = Inr c"
    and d: "format_dedent c = Inr d"
    and r: "visitReferences e (i + 1) refs d = Inr v'"
    by (auto simp: andThen_eq_Inr Let_def)
  show ?case
  proof
    assume "reference_items (ref # refs)"
    then have wn: "well_nested_all (childNodes ref)" and ri: "reference_items refs"
      by (simp_all add: reference_items_Cons)
    from "7.IH"(1)[OF refl a c] wn have "balanced a c" by blast
    from scope_balanced[OF a this d] have "balanced v d" .
    moreover from "7.IH"(2)[OF refl a c d r] ri have "balanced d v'" by blast
    ultimately show "balanced v v'" by (rule balanced_trans)
  qed
qed

text \<open>
  Claim C4, as amended.  For every node that is well nested (it is not handled by
  \<^verbatim>\<open>visitDT\<close> or \<^verbatim>\<open>visitDD\<close>, and every element below it that is, is a child of an
  element handled by \<^verbatim>\<open>visitDL\<close>), the depth of the stack of indentation states
  when \<^verbatim>\<open>visit\<close> returns is the depth before the call.  The state that a term opens,
  or a definition with no term before it, stays on the stack for the definitions
  that follow and is taken off by the list.
\<close>

theorem indent_stack_balanced:
  assumes "well_nested node" and "visit e hp node v = Inr v'"
  shows "indent_depth (format v') = indent_depth (format v)"
  using visit_balance(1)[OF assms(2)] assms(1) by (simp add: balanced_def)

lemma demo_dl_methods:
  "find_method demo_dl = Some M_DL"
  "find_method demo_dt = Some M_DT"
  "find_method demo_dd = Some M_DD"
  by code_simp+

lemma demo_dl_well_nested: "well_nested demo_dl"
  using demo_dl_methods
  by (simp add: demo_dl_def demo_dt_def demo_dd_def handled_by_def)

lemma demo_dl_returns: "\<not> isl (visit demo_env True demo_dl demo_visitor)"
  by code_simp

lemma demo_visitor_depth: "indent_depth (format demo_visitor) = 0"
  by code_simp

theorem indent_stack_balanced_witness:
  "well_nested demo_dl \<and>
   visit demo_env True demo_dl demo_visitor =
     Inr (projr (visit demo_env True demo_dl demo_visitor)) \<and>
   indent_depth (format (projr (visit demo_env True demo_dl demo_visitor))) = 0"
proof -
  have r: "visit demo_env True demo_dl demo_visitor =
     Inr (projr (visit demo_env True demo_dl demo_visitor))"
    using demo_dl_returns by simp
  from indent_stack_balanced[OF demo_dl_well_nested r] demo_visitor_depth
    demo_dl_well_nested r
  show ?thesis by simp
qed

text \<open>
  Claim C4 as stated fails for a node that is a term: the visit of
  \<^verbatim>\<open><dt>term</dt>\<close> by a new Visitor returns with one state on the stack, which was
  empty before.
\<close>

lemma demo_dt_depth:
  "map_sum id (\<lambda>v. indent_depth (format v)) (visit demo_env True demo_dt demo_visitor) = Inr 1"
  by code_simp

theorem indent_stack_counterexample:
  "indent_depth (format demo_visitor) = 0 \<and>
   map_sum id (\<lambda>v. indent_depth (format v)) (visit demo_env True demo_dt demo_visitor) = Inr 1"
  using demo_visitor_depth demo_dt_depth by simp


end
